theory Spec2Isabelle
  imports Complex_Main "HOL-Library.Word" "HOL-Library.Log_Nat" "HOL-Library.Sublist"
begin

unbundle bit_operations_syntax

section \<open>The password engine of options.js (password-engine.js)\<close>

text \<open>
  JavaScript values are modelled as follows. A Number that holds an integer and a BigInt
  are both \<^typ>\<open>int\<close>; a value that went through a 32-bit operator (\<open><<\<close>, \<open>&\<close>,
  \<open>|\<close>, \<open>^\<close>) is a \<^typ>\<open>32 word\<close>, read back as a Number with \<^const>\<open>sint\<close>; a
  double that need not be an integer is a \<^typ>\<open>real\<close>, its arithmetic rounds to the
  nearest double, and the functions of \<open>Math\<close> are parameters (the record \<open>js_math\<close>),
  since the platform only approximates them.
  A string is a \<^typ>\<open>string\<close>, an array a list, \<open>undefined\<close> and \<open>null\<close> are
  \<^const>\<open>None\<close>. A thrown exception is a value \<open>Inl e\<close>.
\<close>

datatype js_error = RangeError | TypeError | CryptoError

subsection \<open>The random source and computations that draw from it\<close>

text \<open>
  \<open>rnd n\<close> is what the \<open>n\<close>-th call of \<open>window.crypto.getRandomValues\<close> does:
  \<^const>\<open>None\<close> when the call throws, \<open>Some buf\<close> when it fills the typed array, element
  \<open>j\<close> with \<open>buf j\<close> reduced to the element's width. A computation takes the number of
  calls made so far and returns the new number with its outcome, or \<^const>\<open>None\<close> when it
  never returns.
\<close>

type_synonym random_source = "nat \<Rightarrow> (nat \<Rightarrow> nat) option"

type_synonym ('a, 's) run = "((js_error + 'a) \<times> 's) option"

definition bind_run :: "('a, 's) run \<Rightarrow> ('a \<Rightarrow> 's \<Rightarrow> ('b, 's) run) \<Rightarrow> ('b, 's) run" where
  "bind_run r f =
     (case r of
        None \<Rightarrow> None
      | Some (Inl e, s) \<Rightarrow> Some (Inl e, s)
      | Some (Inr v, s) \<Rightarrow> f v s)"

text \<open>\<open>try { v = r } catch (e) { v = d }\<close>: the outcome is a value in every case.\<close>

definition catch_run :: "('a, 's) run \<Rightarrow> 'a \<Rightarrow> ('a \<times> 's) option" where
  "catch_run r d =
     (case r of
        None \<Rightarrow> None
      | Some (Inl e, s) \<Rightarrow> Some (d, s)
      | Some (Inr v, s) \<Rightarrow> Some (v, s))"

text \<open>Reading an array or a string by index: \<open>undefined\<close> out of range.\<close>

definition js_at :: "'a list \<Rightarrow> int \<Rightarrow> 'a option" where
  "js_at xs i = (if 0 \<le> i \<and> i < int (length xs) then Some (xs ! nat i) else None)"

text \<open>BigInt \<open>/\<close> and \<open>%\<close> truncate towards zero.\<close>

definition bigint_div :: "int \<Rightarrow> int \<Rightarrow> int" where
  "bigint_div a b = sgn a * sgn b * (\<bar>a\<bar> div \<bar>b\<bar>)"

definition bigint_rem :: "int \<Rightarrow> int \<Rightarrow> int" where
  "bigint_rem a b = a - b * bigint_div a b"

subsection \<open>getSecureRandomInt\<close>

text \<open>The \<open>do ... while (x >= limit)\<close> loop: one 32-bit draw per round.\<close>

partial_function (option) getSecureRandomInt_loop ::
  "random_source \<Rightarrow> int \<Rightarrow> nat \<Rightarrow> (int, nat) run" where
  "getSecureRandomInt_loop rnd limit n =
     (case rnd n of
        None \<Rightarrow> Some (Inl CryptoError, Suc n)
      | Some buf \<Rightarrow>
          (let x = int (buf 0 mod 2 ^ 32) in
           if x \<ge> limit then getSecureRandomInt_loop rnd limit (Suc n)
           else Some (Inr x, Suc n)))"

text \<open>
  \<open>Math.floor(RANGE / max) * max\<close> with \<open>RANGE = 0x100000000\<close>: for an integer
  \<open>max \<ge> 2\<close> the floor of the quotient is the integer quotient.
\<close>

definition getSecureRandomInt :: "random_source \<Rightarrow> int \<Rightarrow> nat \<Rightarrow> (int, nat) run" where
  "getSecureRandomInt rnd mx n =
     (if mx \<le> 0 then Some (Inr 0, n)
      else if mx = 1 then Some (Inr 0, n)
      else (let limit = (4294967296 div mx) * mx in
            bind_run (getSecureRandomInt_loop rnd limit n) (\<lambda>x n'. Some (Inr (x mod mx), n'))))"

subsection \<open>getSecureRandomBigInt\<close>

text \<open>\<open>n.toString(16)\<close> for a positive BigInt.\<close>

definition hex_digits :: string where
  "hex_digits = ''0123456789abcdef''"

fun toString16 :: "nat \<Rightarrow> string" where
  "toString16 n =
     (if n < 16 then [hex_digits ! n]
      else toString16 (n div 16) @ [hex_digits ! (n mod 16)])"

declare toString16.simps [simp del]

text \<open>The \<open>while (true)\<close> loop: \<open>nBytes\<close> random bytes per round, read big-endian.\<close>

partial_function (option) getSecureRandomBigInt_loop ::
  "random_source \<Rightarrow> nat \<Rightarrow> int \<Rightarrow> int \<Rightarrow> nat \<Rightarrow> (int, nat) run" where
  "getSecureRandomBigInt_loop rnd nBytes limit maxExclusive n =
     (case rnd n of
        None \<Rightarrow> Some (Inl CryptoError, Suc n)
      | Some buf \<Rightarrow>
          (let x = foldl (\<lambda>x b. push_bit 8 x + int b) 0 (map (\<lambda>j. buf j mod 256) [0..<nBytes]) in
           if x < limit then Some (Inr (bigint_rem x maxExclusive), Suc n)
           else getSecureRandomBigInt_loop rnd nBytes limit maxExclusive (Suc n)))"

definition getSecureRandomBigInt :: "random_source \<Rightarrow> int \<Rightarrow> nat \<Rightarrow> (int, nat) run" where
  "getSecureRandomBigInt rnd maxExclusive n =
     (if maxExclusive \<le> 1 then Some (Inr 0, n)
      else
        (let hex = toString16 (nat (maxExclusive - 1));
             hex = (if length hex mod 2 \<noteq> 0 then CHR ''0'' # hex else hex);
             nBytes = length hex div 2;
             range = push_bit (8 * nBytes) (1 :: int);
             limit = bigint_div range maxExclusive * maxExclusive
         in getSecureRandomBigInt_loop rnd nBytes limit maxExclusive n))"

subsection \<open>fisherYatesShuffle\<close>

text \<open>
  \<open>for (let i = array.length - 1; i > 0; i--)\<close>: the first argument is \<open>i\<close>. The swap
  \<open>[array[i], array[j]] = [array[j], array[i]]\<close> reads both elements, then writes
  \<open>array[i]\<close>, then \<open>array[j]\<close>.
\<close>

fun fisherYatesShuffle_loop ::
  "random_source \<Rightarrow> nat \<Rightarrow> 'a list \<Rightarrow> nat \<Rightarrow> ('a list, nat) run" where
  "fisherYatesShuffle_loop rnd 0 array n = Some (Inr array, n)"
| "fisherYatesShuffle_loop rnd (Suc i) array n =
     bind_run (getSecureRandomInt rnd (int (Suc i) + 1) n)
       (\<lambda>j. fisherYatesShuffle_loop rnd i
          ((array[Suc i := array ! nat j])[nat j := array ! Suc i]))"

definition fisherYatesShuffle :: "random_source \<Rightarrow> 'a list \<Rightarrow> nat \<Rightarrow> ('a list, nat) run" where
  "fisherYatesShuffle rnd array n = fisherYatesShuffle_loop rnd (length array - 1) array n"

subsection \<open>countValidSequences\<close>

text \<open>
  The \<open>while (stack.length)\<close> loop. A frame is \<open>(i, missing, parity)\<close>; the head of the
  list is the top of the stack (what \<open>pop\<close> returns). Reading \<open>sizes[i]\<close> beyond the
  array gives \<open>undefined\<close>, and adding it to a BigInt throws a TypeError.
\<close>

function countValidSequences_loop ::
  "int list \<Rightarrow> int \<Rightarrow> nat \<Rightarrow> (nat \<times> int \<times> nat) list \<Rightarrow> int \<Rightarrow> js_error + int" where
  "countValidSequences_loop sizes poolSize L [] totalValid = Inr totalValid"
| "countValidSequences_loop sizes poolSize L ((i, missing, parity) # stack) totalValid =
     (if i = length sizes then
        (let remaining = poolSize - missing in
         if remaining \<ge> 0 then
           (let term = remaining ^ L in
            countValidSequences_loop sizes poolSize L stack
              (totalValid + (if parity = 0 then term else - term)))
         else countValidSequences_loop sizes poolSize L stack totalValid)
      else if i < length sizes then
        countValidSequences_loop sizes poolSize L
          ((i + 1, missing + sizes ! i, parity XOR 1) # (i + 1, missing, parity) # stack)
          totalValid
      else Inl TypeError)"
  by pat_completeness auto
termination
  by (relation "measure (\<lambda>(sizes, poolSize, L, stack, totalValid).
          (\<Sum>(i, m, p) \<leftarrow> stack. 3 ^ (Suc (length sizes) - i)))")
     (auto simp: Suc_diff_le)

text \<open>
  \<open>len\<close> and the sizes are integers (a Number that is not an integer is refused with a
  RangeError before anything is computed).
\<close>

definition countValidSequences :: "int \<Rightarrow> int list \<Rightarrow> js_error + int" where
  "countValidSequences len setSizes =
     (if len < 0 then Inl RangeError
      else if \<exists>x\<in>set setSizes. x < 0 then Inl RangeError
      else countValidSequences_loop setSizes (sum_list setSizes) (nat len) [(0, 0, 0)] 0)"

subsection \<open>bigIntLog2\<close>

text \<open>The functions of \<open>Math\<close> that the engine calls, on doubles modelled as reals.\<close>

record js_math =
  Math_log2 :: "real \<Rightarrow> real"
  Math_log :: "real \<Rightarrow> real"
  Math_log1p :: "real \<Rightarrow> real"
  Math_exp :: "real \<Rightarrow> real"

text \<open>\<open>parseInt(c, 16)\<close> for one hexadecimal digit \<open>c\<close>.\<close>

definition parseInt16 :: "char \<Rightarrow> nat" where
  "parseInt16 c = length (takeWhile (\<lambda>d. d \<noteq> c) hex_digits)"

text \<open>
  The sum, difference, product and quotient of two doubles are the exact results rounded
  to the nearest double, ties to the even significand (IEEE 754 binary64). A double with
  exponent \<open>e\<close> is a multiple of \<open>2^(e - 52)\<close>, and of \<open>2^(-1074)\<close> in the subnormal
  range. \<open>Infinity\<close> and \<open>NaN\<close> are not modelled (the reals have no such values): the
  engine adds and multiplies logarithms of counts and of probabilities in \<open>(0, 1)\<close>.
  Where both operands are integers far below \<open>2^53\<close> (lengths, indices, numbers of
  classes) the operation is exact and is written on integers.
\<close>

definition round_half_even :: "real \<Rightarrow> int" where
  "round_half_even q =
     (let f = \<lfloor>q\<rfloor> in
      if q - of_int f < 1 / 2 then f
      else if q - of_int f > 1 / 2 then f + 1
      else if even f then f else f + 1)"

definition to_double :: "real \<Rightarrow> real" where
  "to_double x =
     (if x = 0 then 0
      else
        (let e = max \<lfloor>log 2 \<bar>x\<bar>\<rfloor> (- 1022);
             ulp = 2 powr (of_int e - 52)
         in of_int (round_half_even (x / ulp)) * ulp))"

definition double_add :: "real \<Rightarrow> real \<Rightarrow> real" where
  "double_add x y = to_double (x + y)"

definition double_sub :: "real \<Rightarrow> real \<Rightarrow> real" where
  "double_sub x y = to_double (x - y)"

definition double_mul :: "real \<Rightarrow> real \<Rightarrow> real" where
  "double_mul x y = to_double (x * y)"

definition double_div :: "real \<Rightarrow> real \<Rightarrow> real" where
  "double_div x y = to_double (x / y)"

text \<open>
  \<open>Number(n)\<close> is exact for a BigInt below \<open>2^53\<close>, which is where the function
  converts; \<open>n >> BigInt(shift)\<close> is \<^const>\<open>drop_bit\<close>; \<open>shift\<close> is an integer
  Number. The last line adds two doubles.
\<close>

definition bigIntLog2 :: "js_math \<Rightarrow> int \<Rightarrow> real" where
  "bigIntLog2 M n =
     (if n \<le> 0 then 0
      else
        (let hex = toString16 (nat n);
             firstNibble = parseInt16 (hex ! 0);
             firstBits = \<lfloor>Math_log2 M (real firstNibble)\<rfloor> + 1;
             bitLen = (int (length hex) - 1) * 4 + firstBits
         in if bitLen \<le> 53 then Math_log2 M (real_of_int n)
            else
              (let shift = bitLen - 53;
                   top = drop_bit (nat shift) n
               in double_add (Math_log2 M (real_of_int top)) (real_of_int shift))))"

subsection \<open>calculateShannonEntropyGuaranteed\<close>

text \<open>\<open>lnFact[j]\<close>, filled by \<open>lnFact[i] = lnFact[i - 1] + Math.log(i)\<close> from \<open>lnFact[0] = 0\<close>.\<close>

definition lnFact :: "js_math \<Rightarrow> nat \<Rightarrow> real" where
  "lnFact M j = foldl (\<lambda>a i. double_add a (Math_log M (real i))) 0 [1..<Suc j]"

text \<open>
  \<open>(lnNFact - lnFact[j] - lnFact[n - j]) + (j * logP) + ((n - j) * log1P)\<close>, evaluated
  from the left.
\<close>

definition lnProb :: "js_math \<Rightarrow> nat \<Rightarrow> real \<Rightarrow> real \<Rightarrow> nat \<Rightarrow> real" where
  "lnProb M n logP log1P j =
     double_add
       (double_add (double_sub (double_sub (lnFact M n) (lnFact M j)) (lnFact M (n - j)))
          (double_mul (real j) logP))
       (double_mul (real (n - j)) log1P)"

text \<open>
  One round of the loop that subtracts \<open>E[log2(X_i + 1)]\<close>; \<open>maxLn\<close> starts at
  \<open>-Infinity\<close> (\<^const>\<open>None\<close>) and is a number after the first \<open>j\<close>.
\<close>

definition expected_log2 :: "js_math \<Rightarrow> nat \<Rightarrow> real \<Rightarrow> real \<Rightarrow> real \<Rightarrow> real" where
  "expected_log2 M n N entropy sz =
     (let p = double_div sz N in
      if p \<le> 0 then entropy
      else if p \<ge> 1 then double_sub entropy (Math_log2 M (real n + 1))
      else
        (let logP = Math_log M p;
             log1P = Math_log1p M (- p);
             maxLn = foldl (\<lambda>m j. case m of
                                 None \<Rightarrow> Some (lnProb M n logP log1P j)
                               | Some v \<Rightarrow> if lnProb M n logP log1P j > v
                                           then Some (lnProb M n logP log1P j) else Some v)
                       None [0..<Suc n];
             w = (\<lambda>j. Math_exp M (double_sub (lnProb M n logP log1P j) (the maxLn)));
             sumW = foldl (\<lambda>a j. double_add a (w j)) 0 [0..<Suc n];
             sumWL = foldl (\<lambda>a j. double_add a (double_mul (w j) (Math_log2 M (real j + 1))))
                       0 [0..<Suc n]
         in if sumW > 0 then double_sub entropy (double_div sumWL sumW) else entropy))"

text \<open>
  \<open>L\<close> and the sizes are integers (for a Number that is not an integer the function
  returns 0); \<open>N\<close> is their sum as the \<open>reduce\<close> adds it.
\<close>

definition calculateShannonEntropyGuaranteed :: "js_math \<Rightarrow> int \<Rightarrow> int list \<Rightarrow> real" where
  "calculateShannonEntropyGuaranteed M L setSizes =
     (let k = int (length setSizes);
          N = foldl double_add 0 (map real_of_int setSizes)
      in if k = 0 \<or> N \<le> 0 \<or> L < k then 0
      else if L < 0 then 0
      else if \<exists>s\<in>set setSizes. s \<le> 0 then 0
      else
        (let n = nat (L - k);
             entropy = foldl (\<lambda>e i. double_add e (Math_log2 M (real_of_int i))) 0 [L - k + 1..L];
             entropy = double_add entropy (double_mul (real n) (Math_log2 M N));
             entropy = foldl (\<lambda>e sz. if sz > 0 then double_add e (Math_log2 M (real_of_int sz))
                                     else e)
                         entropy setSizes;
             entropy = foldl (\<lambda>e sz. expected_log2 M n N e (real_of_int sz)) entropy setSizes
         in max 0 entropy))"

subsection \<open>countRemaining\<close>

text \<open>
  The inner \<open>for (let i = 0; i < k; i++)\<close> loop: the sizes of the classes whose bit is set
  in \<open>sub\<close>, and their number. \<open>1 << i\<close> shifts by \<open>i mod 32\<close>.
\<close>

definition countRemaining_missing :: "nat list \<Rightarrow> 32 word \<Rightarrow> nat \<times> nat" where
  "countRemaining_missing sizes sub =
     foldl (\<lambda>(missingSize, bits) i.
              if sub AND push_bit (i mod 32) 1 \<noteq> 0 then (missingSize + sizes ! i, bits + 1)
              else (missingSize, bits))
       (0, 0) [0..<length sizes]"

lemma countRemaining_missing_0: "countRemaining_missing sizes 0 = (0, 0)"
proof -
  have "foldl (\<lambda>(missingSize, bits) i.
              if (0 :: 32 word) AND push_bit (i mod 32) 1 \<noteq> 0 then (missingSize + sizes ! i, bits + 1)
              else (missingSize, bits)) acc xs = acc" for acc :: "nat \<times> nat" and xs
    by (induction xs arbitrary: acc) (auto split: prod.splits)
  then show ?thesis by (simp add: countRemaining_missing_def)
qed

lemma submask_step_less:
  fixes sub :: "32 word"
  assumes "sub \<noteq> 0"
  shows "unat ((sub - 1) AND neededMask) < unat sub"
proof -
  have "(sub - 1) AND neededMask \<le> sub - 1" by (rule word_and_le2)
  then have "unat ((sub - 1) AND neededMask) \<le> unat (sub - 1)" by (simp only: word_le_nat_alt)
  moreover have "unat (sub - 1) = unat sub - 1" using assms by (rule unat_minus_one)
  moreover have "0 < unat sub" using assms by (simp add: unat_gt_0)
  ultimately show ?thesis by linarith
qed

text \<open>
  The loop \<open>for (let sub = neededMask; ; sub = (sub - 1) & neededMask)\<close>. \<open>sizes\<close> is
  the array of BigInts that passed the check for negative entries and \<open>poolSize\<close> their
  sum, hence the type; \<open>continue\<close> goes to the update of \<open>sub\<close> without the test of
  \<open>sub === 0\<close>.
\<close>

function countRemaining_loop ::
  "nat list \<Rightarrow> nat \<Rightarrow> nat \<Rightarrow> 32 word \<Rightarrow> 32 word \<Rightarrow> int \<Rightarrow> int" where
  "countRemaining_loop sizes poolSize R neededMask sub tot =
     (let (missingSize, bits) = countRemaining_missing sizes sub;
          remainingSize = int poolSize - int missingSize
      in if remainingSize < 0 then
           countRemaining_loop sizes poolSize R neededMask ((sub - 1) AND neededMask) tot
         else
           (let term = remainingSize ^ R;
                tot = (if bits mod 2 = 0 then tot + term else tot - term)
            in if sub = 0 then tot
               else countRemaining_loop sizes poolSize R neededMask ((sub - 1) AND neededMask) tot))"
  by pat_completeness auto
termination
proof (relation "measure (\<lambda>(sizes, poolSize, R, neededMask, sub, tot). unat sub)", goal_cases)
  case 1
  show ?case by simp
next
  case (2 sizes poolSize R neededMask sub tot x missingSize bits remainingSize)
  have "sub \<noteq> 0"
  proof
    assume "sub = 0"
    with 2 have "missingSize = 0" by (simp add: countRemaining_missing_0)
    with 2 show False by simp
  qed
  then show ?case by (simp add: submask_step_less)
next
  case 3
  then show ?case by (simp add: submask_step_less)
qed

declare countRemaining_loop.simps [simp del]

text \<open>
  \<open>allMask = (1 << k) - 1\<close> is a Number: the shift is a 32-bit operation, the
  subtraction is not. \<open>allMask ^ currentMask\<close> is a 32-bit operation on both.
\<close>

definition countRemaining :: "int \<Rightarrow> int list \<Rightarrow> int \<Rightarrow> js_error + int" where
  "countRemaining remLen setSizes currentMask =
     (if remLen < 0 then Inl RangeError
      else if \<exists>x\<in>set setSizes. x < 0 then Inl RangeError
      else
        (let sizes = map nat setSizes;
             k = length setSizes;
             allMask = sint (push_bit (k mod 32) (1 :: 32 word)) - 1
         in if currentMask < 0 \<or> currentMask > allMask then Inl RangeError
            else
              (let R = nat remLen;
                   poolSize = sum_list sizes;
                   neededMask = (word_of_int allMask XOR word_of_int currentMask :: 32 word)
               in Inr (countRemaining_loop sizes poolSize R neededMask neededMask 0))))"

text \<open>
  countRemaining uses its third argument as a Number. A caller can pass any value; the
  engine passes a Number or an array of Numbers, and for an array
  \<open>Number.isInteger(currentMask)\<close> is false, so the third check throws.
\<close>

datatype js_value = JSNumber int | JSArray "int list"

definition countRemaining_value :: "int \<Rightarrow> int list \<Rightarrow> js_value \<Rightarrow> js_error + int" where
  "countRemaining_value remLen setSizes currentMask =
     (if remLen < 0 then Inl RangeError
      else if \<exists>x\<in>set setSizes. x < 0 then Inl RangeError
      else
        (case currentMask of
           JSArray a \<Rightarrow> Inl RangeError
         | JSNumber m \<Rightarrow> countRemaining remLen setSizes m))"

subsection \<open>calculateEntropy\<close>

definition calculateEntropy ::
  "js_math \<Rightarrow> int \<Rightarrow> int \<Rightarrow> int list \<Rightarrow> bool \<Rightarrow> string \<Rightarrow> js_error + real" where
  "calculateEntropy M len poolSize setSizes forceEach method =
     (if len \<le> 0 \<or> poolSize \<le> 0 then Inr 0
      else if method = ''guaranteed_inclusion'' \<and> forceEach then
        Inr (calculateShannonEntropyGuaranteed M len setSizes)
      else if \<not> forceEach then
        (let totalAll = poolSize ^ nat len in Inr (bigIntLog2 M totalAll))
      else
        (case countValidSequences len setSizes of
           Inl e \<Rightarrow> Inl e
         | Inr totalValid \<Rightarrow>
             if totalValid \<le> 0 then Inr 0 else Inr (bigIntLog2 M totalValid)))"

subsection \<open>Sampling strategies\<close>

text \<open>
  A character array holds what was pushed: \<open>Some c\<close> for a character, \<^const>\<open>None\<close> for
  \<open>undefined\<close> (a read beyond the end of a string). \<open>str.includes(x)\<close> looks for the
  text of \<open>x\<close> in \<open>str\<close>: a single character, or the text \<open>undefined\<close>.
\<close>

definition includes_str :: "string \<Rightarrow> char option \<Rightarrow> bool" where
  "includes_str str x = (case x of Some c \<Rightarrow> c \<in> set str | None \<Rightarrow> sublist ''undefined'' str)"

text \<open>\<open>array.join('')\<close>: \<open>undefined\<close> contributes nothing.\<close>

definition join_chars :: "char option list \<Rightarrow> string" where
  "join_chars arr = concat (map (\<lambda>x. case x of Some c \<Rightarrow> [c] | None \<Rightarrow> []) arr)"

text \<open>
  tryRandomSampling: the inner \<open>for\<close> loop (the first argument counts the rounds that
  are left) and the \<open>while (attempts < 1000)\<close> loop (likewise).
\<close>

fun tryRandomSampling_draw ::
  "random_source \<Rightarrow> string \<Rightarrow> nat \<Rightarrow> char option list \<Rightarrow> nat \<Rightarrow> (char option list, nat) run" where
  "tryRandomSampling_draw rnd pool 0 temp n = Some (Inr temp, n)"
| "tryRandomSampling_draw rnd pool (Suc c) temp n =
     bind_run (getSecureRandomInt rnd (int (length pool)) n)
       (\<lambda>j. tryRandomSampling_draw rnd pool c (temp @ [js_at pool j]))"

fun tryRandomSampling_loop ::
  "random_source \<Rightarrow> nat \<Rightarrow> string \<Rightarrow> string list \<Rightarrow> bool \<Rightarrow> nat \<Rightarrow> nat \<Rightarrow>
   (char option list option, nat) run" where
  "tryRandomSampling_loop rnd len pool activeSets forceEach 0 n = Some (Inr None, n)"
| "tryRandomSampling_loop rnd len pool activeSets forceEach (Suc a) n =
     bind_run (tryRandomSampling_draw rnd pool len [] n)
       (\<lambda>temp n'.
          if forceEach \<and> (\<exists>s\<in>set activeSets. \<not> (\<exists>char\<in>set temp. includes_str s char))
          then tryRandomSampling_loop rnd len pool activeSets forceEach a n'
          else Some (Inr (Some temp), n'))"

definition tryRandomSampling ::
  "random_source \<Rightarrow> nat \<Rightarrow> string \<Rightarrow> string list \<Rightarrow> bool \<Rightarrow> nat \<Rightarrow>
   (char option list option, nat) run" where
  "tryRandomSampling rnd len pool activeSets forceEach n =
     tryRandomSampling_loop rnd len pool activeSets forceEach 1000 n"

text \<open>generateGuaranteed: the \<open>forEach\<close> over the classes, then the \<open>while\<close> loop.\<close>

fun generateGuaranteed_each ::
  "random_source \<Rightarrow> string list \<Rightarrow> char option list \<Rightarrow> nat \<Rightarrow> (char option list, nat) run" where
  "generateGuaranteed_each rnd [] passwordArr n = Some (Inr passwordArr, n)"
| "generateGuaranteed_each rnd (s # sets) passwordArr n =
     bind_run (getSecureRandomInt rnd (int (length s)) n)
       (\<lambda>j. generateGuaranteed_each rnd sets (passwordArr @ [js_at s j]))"

function generateGuaranteed_fill ::
  "random_source \<Rightarrow> nat \<Rightarrow> string \<Rightarrow> char option list \<Rightarrow> nat \<Rightarrow> (char option list, nat) run" where
  "generateGuaranteed_fill rnd len pool passwordArr n =
     (if length passwordArr < len then
        bind_run (getSecureRandomInt rnd (int (length pool)) n)
          (\<lambda>j. generateGuaranteed_fill rnd len pool (passwordArr @ [js_at pool j]))
      else Some (Inr passwordArr, n))"
  by pat_completeness auto
termination
  by (relation "measure (\<lambda>(rnd, len, pool, passwordArr, n). len - length passwordArr)") auto

declare generateGuaranteed_fill.simps [simp del]

definition generateGuaranteed ::
  "random_source \<Rightarrow> nat \<Rightarrow> string \<Rightarrow> string list \<Rightarrow> nat \<Rightarrow> (char option list, nat) run" where
  "generateGuaranteed rnd len pool activeSets n =
     bind_run (generateGuaranteed_each rnd activeSets [] n) (generateGuaranteed_fill rnd len pool)"

text \<open>
  generateCombinatorial. \<open>countRem = (r, m) => ...\<close> is the memoised
  \<open>countRemaining(r, setSizes, m)\<close>. The Map is keyed by the text \<open>r|m\<close>; the text
  of an array of numbers is its elements joined by commas, so that a number has the text
  of the array that holds it alone, and the key is modelled as the pair of \<open>r\<close> and that
  list. A call that throws stores nothing.
\<close>

type_synonym memo = "int \<times> int list \<rightharpoonup> int"

definition value_text :: "js_value \<Rightarrow> int list" where
  "value_text v = (case v of JSNumber m \<Rightarrow> [m] | JSArray a \<Rightarrow> a)"

definition countRem :: "int list \<Rightarrow> memo \<Rightarrow> int \<Rightarrow> js_value \<Rightarrow> (js_error + int) \<times> memo" where
  "countRem setSizes memo r m =
     (case memo (r, value_text m) of
        Some v \<Rightarrow> (Inr v, memo)
      | None \<Rightarrow>
          (case countRemaining_value r setSizes m of
             Inl e \<Rightarrow> (Inl e, memo)
           | Inr v \<Rightarrow> (Inr v, memo((r, value_text m) \<mapsto> v))))"

text \<open>
  \<open>result += activeSets[sIdx][charIdx]\<close> appends the character, or the text
  \<open>undefined\<close> when the index is out of range.
\<close>

definition char_text :: "string \<Rightarrow> int \<Rightarrow> string" where
  "char_text s i = (case js_at s i of Some c \<Rightarrow> [c] | None \<Rightarrow> ''undefined'')"

text \<open>
  The inner loop \<open>for (let sIdx = 0; sIdx < k; sIdx++)\<close> at one position. The state is
  \<open>(result, rank, currentMask, memo)\<close>; the outcome carries \<open>found\<close> first. The call
  is \<open>countRem(remLen, setSizes, nextMask)\<close>: the closure has the two parameters
  \<open>(r, m)\<close>, so \<open>m\<close> is the array \<open>setSizes\<close> and \<open>nextMask\<close> is dropped.
\<close>

function generateCombinatorial_scan ::
  "string list \<Rightarrow> int list \<Rightarrow> int \<Rightarrow> nat \<Rightarrow> string \<times> int \<times> 32 word \<times> memo \<Rightarrow>
   js_error + bool \<times> string \<times> int \<times> 32 word \<times> memo" where
  "generateCombinatorial_scan activeSets setSizes remLen sIdx (result, rank, currentMask, memo) =
     (if sIdx < length activeSets then
        (let nextMask = currentMask OR push_bit (sIdx mod 32) 1 in
         case countRem setSizes memo remLen (JSArray setSizes) of
           (Inl e, memo') \<Rightarrow> Inl e
         | (Inr waysWithThisSet, memo') \<Rightarrow>
             if waysWithThisSet = 0 then
               generateCombinatorial_scan activeSets setSizes remLen (sIdx + 1)
                 (result, rank, currentMask, memo')
             else
               (let totalWaysForThisCategory = setSizes ! sIdx * waysWithThisSet in
                if rank < totalWaysForThisCategory then
                  (let charIdx = bigint_div rank waysWithThisSet in
                   Inr (True, result @ char_text (activeSets ! sIdx) charIdx,
                        bigint_rem rank waysWithThisSet, nextMask, memo'))
                else
                  generateCombinatorial_scan activeSets setSizes remLen (sIdx + 1)
                    (result, rank - totalWaysForThisCategory, currentMask, memo')))
      else Inr (False, result, rank, currentMask, memo))"
  by pat_completeness auto
termination
  by (relation "measure (\<lambda>(activeSets, setSizes, remLen, sIdx, st). length activeSets - sIdx)") auto

declare generateCombinatorial_scan.simps [simp del]

text \<open>The outer loop \<open>for (let i = 0; i < length; i++)\<close>; \<open>return null\<close> is \<^const>\<open>None\<close>.\<close>

function generateCombinatorial_positions ::
  "string list \<Rightarrow> int list \<Rightarrow> nat \<Rightarrow> nat \<Rightarrow> string \<times> int \<times> 32 word \<times> memo \<Rightarrow>
   js_error + string option" where
  "generateCombinatorial_positions activeSets setSizes len i (result, rank, currentMask, memo) =
     (if i < len then
        (let remLen = int len - 1 - int i in
         case generateCombinatorial_scan activeSets setSizes remLen 0 (result, rank, currentMask, memo) of
           Inl e \<Rightarrow> Inl e
         | Inr (found, st) \<Rightarrow>
             if \<not> found then Inr None
             else generateCombinatorial_positions activeSets setSizes len (i + 1) st)
      else Inr (Some result))"
  by pat_completeness auto
termination
  by (relation "measure (\<lambda>(activeSets, setSizes, len, i, st). len - i)") auto

declare generateCombinatorial_positions.simps [simp del]

definition generateCombinatorial ::
  "random_source \<Rightarrow> nat \<Rightarrow> string list \<Rightarrow> nat \<Rightarrow> (char option list option, nat) run" where
  "generateCombinatorial rnd len activeSets n =
     (let setSizes = map (\<lambda>s. int (length s)) activeSets in
      case countValidSequences (int len) setSizes of
        Inl e \<Rightarrow> Some (Inl e, n)
      | Inr totalValid \<Rightarrow>
          bind_run (getSecureRandomBigInt rnd totalValid n)
            (\<lambda>rank n'.
               case generateCombinatorial_positions activeSets setSizes len 0
                      ('''', rank, 0, Map.empty) of
                 Inl e \<Rightarrow> Some (Inl e, n')
               | Inr None \<Rightarrow> Some (Inr None, n')
               | Inr (Some result) \<Rightarrow> Some (Inr (Some (map Some result)), n')))"

subsection \<open>prepareActiveSets\<close>

definition LOWER :: string where "LOWER = ''abcdefghijklmnopqrstuvwxyz''"
definition UPPER :: string where "UPPER = ''ABCDEFGHIJKLMNOPQRSTUVWXYZ''"
definition NUMS :: string where "NUMS = ''0123456789''"
definition SYMBOLS :: string where
  "SYMBOLS = [CHR 0x27, CHR 0x22, CHR 0x5C] @ ''!@#$%^&*()_+~'' @ [CHR 0x60] @ ''|}{[]:;?><,./-=''"
definition AMBIGUOUS :: string where "AMBIGUOUS = ''il1I|Lo0O2Z5S8B''"
definition CODE_UNSAFE :: string where
  "CODE_UNSAFE = [CHR 0x27, CHR 0x22, CHR 0x5C] @ ''$^*()+~|}{[]?><./''"

text \<open>
  The options object. A field that is absent is \<^const>\<open>None\<close> and takes the value of
  DEFAULT_OPTIONS; a switch that is present counts by its truthiness. Of \<open>length\<close> the
  engine only uses \<open>parseInt(opts.length)\<close>, an integer or \<open>NaN\<close>.
\<close>

datatype length_value = NaN | Parsed int

record gen_options =
  opt_length :: "length_value option"
  opt_upper :: "bool option"
  opt_lower :: "bool option"
  opt_nums :: "bool option"
  opt_symbols :: "bool option"
  opt_forceEach :: "bool option"
  opt_ambig :: "bool option"
  opt_unsafe :: "bool option"

record active_sets =
  cfg_length :: int
  cfg_activeSets :: "string list"
  cfg_forceEach :: bool

definition applyFilters :: "bool \<Rightarrow> bool \<Rightarrow> string \<Rightarrow> bool \<Rightarrow> string" where
  "applyFilters ambig unsafe baseSet isSymbol =
     (let filtered = baseSet;
          filtered = (if ambig then filter (\<lambda>c. c \<notin> set AMBIGUOUS) filtered else filtered);
          filtered = (if isSymbol \<and> unsafe then filter (\<lambda>c. c \<notin> set CODE_UNSAFE) filtered
                      else filtered)
      in filtered)"

text \<open>\<open>parseInt(opts.length) || 16\<close>: \<open>NaN\<close> and \<open>0\<close> are falsy.\<close>

definition length_or_16 :: "length_value \<Rightarrow> int" where
  "length_or_16 v = (case v of NaN \<Rightarrow> 16 | Parsed x \<Rightarrow> if x = 0 then 16 else x)"

definition prepareActiveSets :: "gen_options \<Rightarrow> active_sets" where
  "prepareActiveSets options =
     (let upper = (case opt_upper options of None \<Rightarrow> True | Some b \<Rightarrow> b);
          lower = (case opt_lower options of None \<Rightarrow> True | Some b \<Rightarrow> b);
          nums = (case opt_nums options of None \<Rightarrow> True | Some b \<Rightarrow> b);
          symbols = (case opt_symbols options of None \<Rightarrow> True | Some b \<Rightarrow> b);
          forceEach = (case opt_forceEach options of None \<Rightarrow> True | Some b \<Rightarrow> b);
          ambig = (case opt_ambig options of None \<Rightarrow> False | Some b \<Rightarrow> b);
          unsafe = (case opt_unsafe options of None \<Rightarrow> False | Some b \<Rightarrow> b);
          len = (case opt_length options of None \<Rightarrow> Parsed 18 | Some v \<Rightarrow> v);
          sets = (if upper then [applyFilters ambig unsafe UPPER False] else [])
               @ (if lower then [applyFilters ambig unsafe LOWER False] else [])
               @ (if nums then [applyFilters ambig unsafe NUMS False] else [])
               @ (if symbols then [applyFilters ambig unsafe SYMBOLS True] else [])
      in \<lparr>cfg_length = max 5 (min 128 (length_or_16 len)),
          cfg_activeSets = filter (\<lambda>s. length s > 0) sets,
          cfg_forceEach = forceEach\<rparr>)"

subsection \<open>generatePassword\<close>

datatype config_error = NoClassSelected | LengthTooShort nat

record gen_result =
  res_password :: string
  res_entropy :: real
  res_method :: "string option"
  res_error :: "config_error option"

text \<open>
  The three tiers, up to the shuffle: the array and the method tag they leave behind.
  \<open>passwordArr && passwordArr.length > 0\<close> is false for \<open>null\<close> and for the empty
  array.
\<close>

definition sampling_tiers ::
  "random_source \<Rightarrow> nat \<Rightarrow> string \<Rightarrow> string list \<Rightarrow> bool \<Rightarrow> nat \<Rightarrow>
   ((char option list \<times> string) \<times> nat) option" where
  "sampling_tiers rnd len pool activeSets forceEach n =
     (case catch_run (tryRandomSampling rnd len pool activeSets forceEach n) None of
        None \<Rightarrow> None
      | Some (passwordArr, n1) \<Rightarrow>
          (case (if passwordArr \<noteq> None \<and> length (the passwordArr) > 0
                 then Some ((passwordArr, ''rejection_sampling''), n1)
                 else if forceEach then
                   (case generateCombinatorial rnd len activeSets n1 of
                      None \<Rightarrow> None
                    | Some (Inl e, n2) \<Rightarrow> Some ((None, ''pure_random''), n2)
                    | Some (Inr arr, n2) \<Rightarrow> Some ((arr, ''combinatorial_sampling''), n2))
                 else Some ((passwordArr, ''pure_random''), n1)) of
             None \<Rightarrow> None
           | Some ((passwordArr, method), n2) \<Rightarrow>
               if passwordArr = None \<or> length (the passwordArr) = 0 then
                 (case catch_run (generateGuaranteed rnd len pool activeSets n2) [] of
                    None \<Rightarrow> None
                  | Some (arr, n3) \<Rightarrow> Some ((arr, ''guaranteed_inclusion''), n3))
               else Some ((the passwordArr, method), n2)))"

text \<open>
  \<open>crypto\<close> says whether \<open>window.crypto.getRandomValues\<close> exists (ensureCrypto).
  The outcome is \<^const>\<open>None\<close> when a rejection loop never ends, \<open>Inl e\<close> when the call
  throws, and the returned object otherwise.
\<close>

definition generatePassword ::
  "js_math \<Rightarrow> bool \<Rightarrow> random_source \<Rightarrow> gen_options \<Rightarrow> nat \<Rightarrow> (gen_result, nat) run" where
  "generatePassword M crypto rnd rawOptions n =
     (if \<not> crypto then Some (Inl CryptoError, n)
      else
        (let cfg = prepareActiveSets rawOptions;
             len = cfg_length cfg;
             activeSets = cfg_activeSets cfg;
             forceEach = cfg_forceEach cfg
         in if length activeSets = 0 then
              Some (Inr \<lparr>res_password = '''', res_entropy = 0, res_method = None,
                         res_error = Some NoClassSelected\<rparr>, n)
            else if forceEach \<and> len < int (length activeSets) then
              Some (Inr \<lparr>res_password = '''', res_entropy = 0, res_method = None,
                         res_error = Some (LengthTooShort (length activeSets))\<rparr>, n)
            else
              (let pool = concat activeSets;
                   setSizes = map (\<lambda>s. int (length s)) activeSets
               in case sampling_tiers rnd (nat len) pool activeSets forceEach n of
                    None \<Rightarrow> None
                  | Some ((passwordArr, method), n1) \<Rightarrow>
                      bind_run (fisherYatesShuffle rnd passwordArr n1)
                        (\<lambda>shuffled n2.
                           case calculateEntropy M len (int (length pool)) setSizes forceEach method of
                             Inl e \<Rightarrow> Some (Inl e, n2)
                           | Inr entropy \<Rightarrow>
                               Some (Inr \<lparr>res_password = join_chars shuffled, res_entropy = entropy,
                                          res_method = Some method, res_error = None\<rparr>, n2)))))"

section \<open>Notions of the specification\<close>

text \<open>
  The inclusion-exclusion sum over the subsets \<open>S\<close> of a set \<open>A\<close> of class indices, for
  a pool of \<open>M\<close> characters and sequences of length \<open>r\<close>:
  \<open>\<Sum>S\<subseteq>A. (-1)^|S| * (M - \<Sum>i\<in>S. sizes[i])^r\<close>.
\<close>

definition pie_sum :: "int list \<Rightarrow> int \<Rightarrow> nat \<Rightarrow> nat set \<Rightarrow> int" where
  "pie_sum sizes M r A = (\<Sum>S\<in>Pow A. (- 1) ^ card S * (M - (\<Sum>i\<in>S. sizes ! i)) ^ r)"

text \<open>
  The sequences of length \<open>L\<close> over an alphabet \<open>U\<close> that meet every class \<open>Cs ! c\<close>
  with \<open>c \<in> A\<close>.
\<close>

definition cover_seqs :: "'a set \<Rightarrow> 'a set list \<Rightarrow> nat \<Rightarrow> nat set \<Rightarrow> 'a list set" where
  "cover_seqs U Cs L A = {w. length w = L \<and> set w \<subseteq> U \<and> (\<forall>c\<in>A. set w \<inter> Cs ! c \<noteq> {})}"

text \<open>
  The pooled alphabet of classes of the given sizes: the letter \<open>(c, j)\<close> is character
  \<open>j\<close> of class \<open>c\<close>. A valid sequence has length \<open>L\<close> and a letter of every class.
\<close>

definition valid_sequences :: "nat \<Rightarrow> nat list \<Rightarrow> (nat \<times> nat) list set" where
  "valid_sequences L sizes =
     {w. length w = L \<and> (\<forall>(c, j)\<in>set w. c < length sizes \<and> j < sizes ! c) \<and>
         (\<forall>c<length sizes. c \<in> fst ` set w)}"

text \<open>Invariant and value of a frame of the stack of countValidSequences.\<close>

definition frame_ok :: "int list \<Rightarrow> int \<Rightarrow> nat \<times> int \<times> nat \<Rightarrow> bool" where
  "frame_ok sizes N f = (case f of (i, m, p) \<Rightarrow>
     i \<le> length sizes \<and> p \<le> 1 \<and> m + (\<Sum>j\<in>{i..<length sizes}. sizes ! j) \<le> N)"

definition frame_val :: "int list \<Rightarrow> int \<Rightarrow> nat \<Rightarrow> nat \<times> int \<times> nat \<Rightarrow> int" where
  "frame_val sizes N L f = (case f of (i, m, p) \<Rightarrow>
     (if p = 0 then 1 else - 1) * pie_sum sizes (N - m) L {i..<length sizes})"

text \<open>
  The mathematical functions that \<open>Math\<close> approximates, and what bigIntLog2 needs of
  \<open>Math.log2\<close>: the right integer part on the hexadecimal digits 1 to 15, and the exact
  value on the powers of two that a double mantissa holds.
\<close>

definition ideal_math :: js_math where
  "ideal_math = \<lparr>Math_log2 = log 2, Math_log = ln, Math_log1p = (\<lambda>x. ln (1 + x)), Math_exp = exp\<rparr>"

definition log2_adequate :: "js_math \<Rightarrow> bool" where
  "log2_adequate M =
     ((\<forall>v\<in>{1..15 :: nat}. \<lfloor>Math_log2 M (real v)\<rfloor> = int (floorlog 2 v) - 1) \<and>
      (\<forall>j\<le>52 :: nat. Math_log2 M (2 ^ j) = real j))"


text \<open>
  The values that \<open>sub\<close> takes in the loop of countRemaining, read as natural numbers,
  and the summand that the loop adds for such a value.
\<close>

lemma and_pred_less: "s \<noteq> 0 \<Longrightarrow> (s - Suc 0) AND nm < (s :: nat)"
proof -
  assume "s \<noteq> 0"
  have "int ((s - Suc 0) AND nm) = int (s - Suc 0) AND int nm" by (simp add: of_nat_and_eq)
  also have "\<dots> \<le> int (s - Suc 0)" by (rule AND_upper1) simp
  finally have "(s - Suc 0) AND nm \<le> s - Suc 0" by simp
  with \<open>s \<noteq> 0\<close> show ?thesis by simp
qed

function submasks :: "nat \<Rightarrow> nat \<Rightarrow> nat list" where
  "submasks nm s = s # (if s = 0 then [] else submasks nm ((s - 1) AND nm))"
  by pat_completeness auto
termination
  by (relation "measure snd") (auto simp: and_pred_less)

declare submasks.simps [simp del]

definition mask_term :: "int list \<Rightarrow> int \<Rightarrow> nat \<Rightarrow> nat \<Rightarrow> int" where
  "mask_term sizes M R t =
     (- 1) ^ card {i. i < length sizes \<and> bit t i} *
     (M - (\<Sum>i | i < length sizes \<and> bit t i. sizes ! i)) ^ R"


text \<open>A random source is available when no call of \<open>getRandomValues\<close> throws.\<close>

definition available :: "random_source \<Rightarrow> bool" where
  "available rnd = (\<forall>i. rnd i \<noteq> None)"


text \<open>The position loop of \<open>generateCombinatorial\<close> on a given rank, as the function
  starts it: empty result, no class seen, empty memo table.\<close>

definition unrank :: "string list \<Rightarrow> nat \<Rightarrow> int \<Rightarrow> js_error + string option" where
  "unrank activeSets L rank =
     generateCombinatorial_positions activeSets (map (\<lambda>s. int (length s)) activeSets) L 0
       ([], rank, 0, Map.empty)"

text \<open>
  What a sampling tier leaves behind when it succeeds: an array of the requested length
  over the pool that, when every class is required, holds a character of each class.
\<close>

definition full_array :: "string list \<Rightarrow> nat \<Rightarrow> bool \<Rightarrow> char option list \<Rightarrow> bool" where
  "full_array activeSets len forceEach arr =
     (length arr = len \<and> set arr \<subseteq> Some ` set (concat activeSets) \<and>
      (forceEach \<longrightarrow> (\<forall>s\<in>set activeSets. \<exists>c\<in>set s. Some c \<in> set arr)))"

text \<open>Random sources for concrete runs: the listed 32-bit draws, then zeros; and a source
  whose every call throws.\<close>

definition list_source :: "nat list \<Rightarrow> random_source" where
  "list_source ds n = Some (\<lambda>j. if n < length ds then ds ! n else 0)"

definition failing_source :: random_source where
  "failing_source n = None"

text \<open>A source whose calls listed as \<open>False\<close> throw; every other call fills the array
  with zeros.\<close>

definition faulty_source :: "bool list \<Rightarrow> random_source" where
  "faulty_source ok n = (if n < length ok \<and> \<not> ok ! n then None else Some (\<lambda>j. 0))"

text \<open>
  Option objects for concrete runs: the empty object, a length of \<open>0\<close> without the
  requirement that every class appears, the length \<open>3\<close> with all four classes required,
  and five digits.
\<close>

definition opts_default :: gen_options where
  "opts_default = \<lparr>opt_length = None, opt_upper = None, opt_lower = None, opt_nums = None,
     opt_symbols = None, opt_forceEach = None, opt_ambig = None, opt_unsafe = None\<rparr>"

definition opts_length_0 :: gen_options where
  "opts_length_0 = \<lparr>opt_length = Some (Parsed 0), opt_upper = None, opt_lower = None,
     opt_nums = None, opt_symbols = None, opt_forceEach = Some False, opt_ambig = None,
     opt_unsafe = None\<rparr>"

definition opts_length_3 :: gen_options where
  "opts_length_3 = \<lparr>opt_length = Some (Parsed 3), opt_upper = Some True, opt_lower = Some True,
     opt_nums = Some True, opt_symbols = Some True, opt_forceEach = Some True, opt_ambig = None,
     opt_unsafe = None\<rparr>"

definition opts_digits_5 :: gen_options where
  "opts_digits_5 = \<lparr>opt_length = Some (Parsed 5), opt_upper = Some False, opt_lower = Some False,
     opt_nums = Some True, opt_symbols = Some False, opt_forceEach = Some True, opt_ambig = None,
     opt_unsafe = None\<rparr>"

text \<open>
  A sampling tier fails when it throws or leaves no characters (\<open>null\<close> or an empty
  array); the value is the number of calls of the random source made by then. All three
  tiers fail when the first does, the second does if it is tried, and the third does.
\<close>

definition tier_failed :: "(char option list option, nat) run \<Rightarrow> nat option" where
  "tier_failed r =
     (case r of
        None \<Rightarrow> None
      | Some (Inl e, n) \<Rightarrow> Some n
      | Some (Inr None, n) \<Rightarrow> Some n
      | Some (Inr (Some arr), n) \<Rightarrow> if arr = [] then Some n else None)"

definition last_tier_failed :: "(char option list, nat) run \<Rightarrow> nat option" where
  "last_tier_failed r =
     (case r of
        None \<Rightarrow> None
      | Some (Inl e, n) \<Rightarrow> Some n
      | Some (Inr arr, n) \<Rightarrow> if arr = [] then Some n else None)"

definition all_tiers_failed ::
  "random_source \<Rightarrow> nat \<Rightarrow> string list \<Rightarrow> bool \<Rightarrow> nat \<Rightarrow> nat option" where
  "all_tiers_failed rnd len activeSets forceEach n =
     (case tier_failed (tryRandomSampling rnd len (concat activeSets) activeSets forceEach n) of
        None \<Rightarrow> None
      | Some n1 \<Rightarrow>
          (case (if forceEach then tier_failed (generateCombinatorial rnd len activeSets n1)
                 else Some n1) of
             None \<Rightarrow> None
           | Some n2 \<Rightarrow>
               last_tier_failed (generateGuaranteed rnd len (concat activeSets) activeSets n2)))"

text \<open>
  A random source is fair when, from every call on, some later call throws or yields a
  32-bit value below \<open>2^32 - 128\<close>, which every threshold for \<open>max \<le> 128\<close> exceeds.
\<close>

definition fair_source :: "random_source \<Rightarrow> bool" where
  "fair_source rnd =
     (\<forall>n. \<exists>m\<ge>n. case rnd m of None \<Rightarrow> True | Some buf \<Rightarrow> int (buf 0 mod 2 ^ 32) < 4294967168)"


section \<open>Inclusion-exclusion: countValidSequences\<close>


lemma pie_sum_empty: "pie_sum sizes M r {} = M ^ r"
  by (simp add: pie_sum_def)

lemma pie_sum_insert:
  assumes "finite A" "a \<notin> A"
  shows "pie_sum sizes M r (insert a A) = pie_sum sizes M r A - pie_sum sizes (M - sizes ! a) r A"
proof -
  have fin: "finite (Pow A)" using assms by simp
  have disj: "Pow A \<inter> insert a ` Pow A = {}" using assms by auto
  have inj: "inj_on (insert a) (Pow A)"
    using assms by (auto simp: inj_on_def)
  have "pie_sum sizes M r (insert a A) =
        (\<Sum>S\<in>Pow A. (- 1) ^ card S * (M - (\<Sum>i\<in>S. sizes ! i)) ^ r) +
        (\<Sum>S\<in>insert a ` Pow A. (- 1) ^ card S * (M - (\<Sum>i\<in>S. sizes ! i)) ^ r)"
    unfolding pie_sum_def Pow_insert
    by (rule sum.union_disjoint) (use fin disj in auto)
  also have "(\<Sum>S\<in>insert a ` Pow A. (- 1) ^ card S * (M - (\<Sum>i\<in>S. sizes ! i)) ^ r) =
        (\<Sum>S\<in>Pow A. (- 1) ^ card (insert a S) * (M - (\<Sum>i\<in>insert a S. sizes ! i)) ^ r)"
    by (simp add: sum.reindex [OF inj])
  also have "\<dots> = (\<Sum>S\<in>Pow A. - ((- 1) ^ card S * (M - sizes ! a - (\<Sum>i\<in>S. sizes ! i)) ^ r))"
  proof (rule sum.cong [OF refl])
    fix S assume "S \<in> Pow A"
    then have "finite S" "a \<notin> S" using assms by (auto intro: finite_subset)
    then show "(- 1) ^ card (insert a S) * (M - (\<Sum>i\<in>insert a S. sizes ! i)) ^ r =
               - ((- 1) ^ card S * (M - sizes ! a - (\<Sum>i\<in>S. sizes ! i)) ^ r)"
      by (simp add: algebra_simps)
  qed
  finally show ?thesis by (simp add: pie_sum_def sum_negf)
qed

lemma pie_sum_from:
  assumes "i < k"
  shows "pie_sum sizes M r {i..<k} =
         pie_sum sizes M r {Suc i..<k} - pie_sum sizes (M - sizes ! i) r {Suc i..<k}"
proof -
  have "{i..<k} = insert i {Suc i..<k}" using assms by auto
  then show ?thesis by (simp add: pie_sum_insert)
qed

lemma countValidSequences_loop_sum:
  assumes "\<forall>s\<in>set sizes. 0 \<le> s" "\<forall>f\<in>set stack. frame_ok sizes N f"
  shows "countValidSequences_loop sizes N L stack tot =
         Inr (tot + (\<Sum>f\<leftarrow>stack. frame_val sizes N L f))"
  using assms
proof (induction sizes N L stack tot rule: countValidSequences_loop.induct)
  case (1 sizes poolSize L totalValid)
  then show ?case by simp
next
  case (2 sizes poolSize L i missing parity stack totalValid)
  show ?case
  proof (cases "i = length sizes")
    case True
    with "2.prems" have rem: "poolSize - missing \<ge> 0" and p: "parity \<le> 1"
      by (auto simp: frame_ok_def)
    have "\<forall>f\<in>set stack. frame_ok sizes poolSize f" using "2.prems" by simp
    with "2.IH"(1) [OF True refl rem refl] "2.prems"(1) True rem show ?thesis
      by (simp add: frame_val_def pie_sum_empty Let_def)
  next
    case False
    with "2.prems" have lt: "i < length sizes" and p: "parity \<le> 1"
      and inv: "missing + (\<Sum>j\<in>{i..<length sizes}. sizes ! j) \<le> poolSize"
      by (auto simp: frame_ok_def)
    have split: "{i..<length sizes} = insert i {Suc i..<length sizes}" using lt by auto
    have nn: "0 \<le> sizes ! i" using "2.prems"(1) lt by simp
    have sum_eq: "(\<Sum>j\<in>{i..<length sizes}. sizes ! j) = sizes ! i + (\<Sum>j\<in>{Suc i..<length sizes}. sizes ! j)"
      by (subst split) simp
    have ok: "\<forall>f\<in>set ((i + 1, missing + sizes ! i, parity XOR 1) # (i + 1, missing, parity) # stack).
                frame_ok sizes poolSize f"
    proof -
      have "parity XOR 1 \<le> 1" using p by (cases "parity = 0") (auto simp: le_Suc_eq)
      then show ?thesis using "2.prems"(2) lt inv nn sum_eq by (auto simp: frame_ok_def)
    qed
    have px: "(parity XOR 1 = 0) = (parity \<noteq> 0)" using p by (cases "parity = 0") (auto simp: le_Suc_eq)
    show ?thesis
      using "2.IH"(3) [OF False lt "2.prems"(1) ok] False lt px
      by (simp add: frame_val_def pie_sum_from [OF lt] algebra_simps)
  qed
qed

lemma countValidSequences_pie_sum:
  assumes "0 \<le> L" "\<forall>s\<in>set sizes. 0 \<le> s"
  shows "countValidSequences L sizes = Inr (pie_sum sizes (sum_list sizes) (nat L) {..<length sizes})"
proof -
  have "(\<Sum>j\<in>{0..<length sizes}. sizes ! j) = sum_list sizes"
    by (simp add: sum_list_sum_nth)
  then have "\<forall>f\<in>set [(0, 0, 0)]. frame_ok sizes (sum_list sizes) f"
    by (simp add: frame_ok_def)
  from countValidSequences_loop_sum [OF assms(2) this] assms show ?thesis
    by (auto simp: countValidSequences_def frame_val_def atLeast0LessThan)
qed




lemma finite_cover_seqs: "finite U \<Longrightarrow> finite (cover_seqs U Cs L A)"
  by (rule finite_subset [OF _ finite_lists_length_eq [of U L]]) (auto simp: cover_seqs_def)

lemma card_cover_seqs:
  assumes "finite A" "finite U"
    and "\<forall>c\<in>A. Cs ! c \<subseteq> U"
    and "\<forall>c\<in>A. \<forall>d\<in>A. c \<noteq> d \<longrightarrow> Cs ! c \<inter> Cs ! d = {}"
    and "\<forall>c\<in>A. sizes ! c = int (card (Cs ! c))"
  shows "int (card (cover_seqs U Cs L A)) = pie_sum sizes (int (card U)) L A"
  using assms
proof (induction A arbitrary: U rule: finite_induct)
  case empty
  have "cover_seqs U Cs L {} = {xs. set xs \<subseteq> U \<and> length xs = L}"
    by (auto simp: cover_seqs_def)
  then show ?case using empty by (simp add: card_lists_length_eq pie_sum_empty)
next
  case (insert a A)
  let ?C = "Cs ! a"
  have CU: "?C \<subseteq> U" using insert.prems by simp
  have finU': "finite (U - ?C)" using insert.prems by simp
  have sub': "\<forall>c\<in>A. Cs ! c \<subseteq> U - ?C"
  proof
    fix c assume c: "c \<in> A"
    then have "c \<noteq> a" using insert.hyps by auto
    then have "Cs ! c \<inter> ?C = {}" using insert.prems(3) c by auto
    moreover have "Cs ! c \<subseteq> U" using insert.prems(2) c by simp
    ultimately show "Cs ! c \<subseteq> U - ?C" by auto
  qed
  have IH1: "int (card (cover_seqs U Cs L A)) = pie_sum sizes (int (card U)) L A"
    using insert.prems by (intro insert.IH) auto
  have IH2: "int (card (cover_seqs (U - ?C) Cs L A)) = pie_sum sizes (int (card (U - ?C))) L A"
    using insert.prems sub' finU' by (intro insert.IH) auto
  have split: "cover_seqs U Cs L (insert a A) = cover_seqs U Cs L A - cover_seqs (U - ?C) Cs L A"
    using sub' by (auto simp: cover_seqs_def)
  have subset: "cover_seqs (U - ?C) Cs L A \<subseteq> cover_seqs U Cs L A"
    by (auto simp: cover_seqs_def)
  have "card (cover_seqs U Cs L (insert a A)) =
        card (cover_seqs U Cs L A) - card (cover_seqs (U - ?C) Cs L A)"
    unfolding split using subset finite_cover_seqs [OF finU']
    by (rule card_Diff_subset [rotated])
  moreover have "card (cover_seqs (U - ?C) Cs L A) \<le> card (cover_seqs U Cs L A)"
    using subset finite_cover_seqs [OF insert.prems(1)] by (rule card_mono [rotated])
  ultimately have "int (card (cover_seqs U Cs L (insert a A))) =
        int (card (cover_seqs U Cs L A)) - int (card (cover_seqs (U - ?C) Cs L A))"
    by simp
  moreover have "int (card (U - ?C)) = int (card U) - sizes ! a"
  proof -
    have "card (U - ?C) = card U - card ?C"
      using CU insert.prems(1) by (simp add: card_Diff_subset finite_subset)
    moreover have "card ?C \<le> card U" using CU insert.prems(1) by (simp add: card_mono)
    ultimately show ?thesis using insert.prems(4) by simp
  qed
  ultimately show ?case
    using IH1 IH2 insert.hyps by (simp add: pie_sum_insert)
qed

lemma valid_sequences_cover:
  "valid_sequences L sizes =
   cover_seqs (SIGMA c:{..<length sizes}. {..<sizes ! c})
     (map (\<lambda>c. {c} \<times> {..<sizes ! c}) [0..<length sizes]) L {..<length sizes}"
  unfolding valid_sequences_def cover_seqs_def
  by (auto simp: image_iff subset_iff) force+

lemma card_valid_sequences:
  "int (card (valid_sequences L sizes)) =
   pie_sum (map int sizes) (int (sum_list sizes)) L {..<length sizes}"
proof -
  let ?U = "SIGMA c:{..<length sizes}. {..<sizes ! c}"
  let ?Cs = "map (\<lambda>c. {c} \<times> {..<sizes ! c}) [0..<length sizes]"
  have cardU: "card ?U = sum_list sizes"
    by (simp add: sum_list_sum_nth atLeast0LessThan)
  have "int (card (cover_seqs ?U ?Cs L {..<length sizes})) =
        pie_sum (map int sizes) (int (card ?U)) L {..<length sizes}"
    by (rule card_cover_seqs) (auto simp: card_cartesian_product)
  then show ?thesis by (simp add: valid_sequences_cover cardU)
qed

lemma map_int_nat: "\<forall>s\<in>set sizes. (0::int) \<le> s \<Longrightarrow> map (int \<circ> nat) sizes = sizes"
  by (induction sizes) auto

lemma sum_list_map_nat: "\<forall>s\<in>set sizes. (0::int) \<le> s \<Longrightarrow> int (sum_list (map nat sizes)) = sum_list sizes"
  by (induction sizes) auto

text \<open>
  Claim C1. For every non-negative integer \<open>L\<close> and every list of non-negative
  integers \<open>sizes\<close>, countValidSequences returns the inclusion-exclusion sum over all
  subsets \<open>S\<close> of the class indices of \<open>(-1)^|S| * (N - \<Sum>i\<in>S. sizes[i])^L\<close> with
  \<open>N\<close> the sum of the sizes; this is the number of sequences of length \<open>L\<close> over the
  pooled alphabet in which every class occurs; and countValidSequences(5, [2,3]) = 2850.
\<close>

theorem countValidSequences_inclusion_exclusion:
  assumes "0 \<le> L" and "\<forall>s\<in>set sizes. 0 \<le> s"
  shows "countValidSequences L sizes =
           Inr (\<Sum>S\<in>Pow {..<length sizes}.
                  (- 1) ^ card S * (sum_list sizes - (\<Sum>i\<in>S. sizes ! i)) ^ nat L) \<and>
         countValidSequences L sizes = Inr (int (card (valid_sequences (nat L) (map nat sizes)))) \<and>
         countValidSequences 5 [2, 3] = Inr 2850"
proof -
  have a: "countValidSequences L sizes = Inr (pie_sum sizes (sum_list sizes) (nat L) {..<length sizes})"
    using assms by (rule countValidSequences_pie_sum)
  have b: "int (card (valid_sequences (nat L) (map nat sizes))) =
           pie_sum sizes (sum_list sizes) (nat L) {..<length sizes}"
    using card_valid_sequences [of "nat L" "map nat sizes"] assms(2)
    by (simp add: map_int_nat sum_list_map_nat)
  have c: "countValidSequences 5 [2, 3] = Inr 2850"
    by (simp add: countValidSequences_def)
  from a b c show ?thesis by (simp add: pie_sum_def)
qed

theorem countValidSequences_inclusion_exclusion_witness:
  "(0::int) \<le> 2 \<and> countValidSequences 2 [1, 1] = Inr 2 \<and>
   int (card (valid_sequences 2 [1, 1])) = 2"
proof -
  have h0: "(0::int) \<le> 2" by simp
  have h: "\<forall>s\<in>set [1, 1 :: int]. 0 \<le> s" by simp
  note t = countValidSequences_inclusion_exclusion [OF h0 h]
  have "countValidSequences 2 [1, 1] = Inr (int (card (valid_sequences (nat 2) (map nat [1, 1]))))"
    by (rule t [THEN conjunct2, THEN conjunct1])
  moreover have "countValidSequences 2 [1, 1] = Inr 2"
    by (simp add: countValidSequences_def)
  ultimately show ?thesis by simp
qed


section \<open>Entropy: calculateEntropy and bigIntLog2\<close>


lemma bigIntLog2_nonpos: "n \<le> 0 \<Longrightarrow> bigIntLog2 M n = 0"
  by (simp add: bigIntLog2_def)

text \<open>
  Claim C5. calculateEntropy returns 0 whenever \<open>L \<le> 0\<close> or \<open>poolSize \<le> 0\<close>; otherwise
  it returns calculateShannonEntropyGuaranteed(L, sizes) when the method is the
  guaranteed-inclusion tag and forceEach holds, bigIntLog2(poolSize^L) when forceEach is
  false, and in the remaining case bigIntLog2(countValidSequences(L, sizes)), or 0 when
  that count is 0 (an exception of countValidSequences is passed on).
\<close>

theorem calculateEntropy_cases:
  "(L \<le> 0 \<or> poolSize \<le> 0 \<longrightarrow>
      calculateEntropy M L poolSize sizes forceEach method = Inr 0) \<and>
   (0 < L \<and> 0 < poolSize \<and> method = ''guaranteed_inclusion'' \<and> forceEach \<longrightarrow>
      calculateEntropy M L poolSize sizes forceEach method =
        Inr (calculateShannonEntropyGuaranteed M L sizes)) \<and>
   (0 < L \<and> 0 < poolSize \<and> \<not> forceEach \<longrightarrow>
      calculateEntropy M L poolSize sizes forceEach method = Inr (bigIntLog2 M (poolSize ^ nat L))) \<and>
   (0 < L \<and> 0 < poolSize \<and> forceEach \<and> method \<noteq> ''guaranteed_inclusion'' \<longrightarrow>
      calculateEntropy M L poolSize sizes forceEach method =
        (case countValidSequences L sizes of
           Inl e \<Rightarrow> Inl e
         | Inr T \<Rightarrow> Inr (if T = 0 then 0 else bigIntLog2 M T)))"
  by (auto simp: calculateEntropy_def Let_def bigIntLog2_nonpos split: sum.splits)

theorem calculateEntropy_cases_witness:
  "calculateEntropy ideal_math 5 5 [2, 3] True ''rejection_sampling'' = Inr (bigIntLog2 ideal_math 2850) \<and>
   calculateEntropy ideal_math 5 5 [2, 3] False ''rejection_sampling'' = Inr (bigIntLog2 ideal_math 3125) \<and>
   calculateEntropy ideal_math 0 5 [2, 3] True ''rejection_sampling'' = Inr 0"
proof -
  have T: "countValidSequences 5 [2, 3] = Inr 2850" by (simp add: countValidSequences_def)
  have a: "calculateEntropy ideal_math 5 5 [2, 3] True ''rejection_sampling'' = Inr (bigIntLog2 ideal_math 2850)"
    using calculateEntropy_cases [of 5 5 ideal_math "[2, 3]" True "''rejection_sampling''"] T by simp
  have b: "calculateEntropy ideal_math 5 5 [2, 3] False ''rejection_sampling'' = Inr (bigIntLog2 ideal_math 3125)"
    using calculateEntropy_cases [of 5 5 ideal_math "[2, 3]" False "''rejection_sampling''"] by simp
  have c: "calculateEntropy ideal_math 0 5 [2, 3] True ''rejection_sampling'' = Inr 0"
    using calculateEntropy_cases [of 0 5 ideal_math "[2, 3]" True "''rejection_sampling''"] by simp
  from a b c show ?thesis by simp
qed

lemma toString16_nonempty: "toString16 n \<noteq> []"
  by (subst toString16.simps) simp

lemma parseInt16_hex_all: "\<forall>n\<in>set [0..<16]. parseInt16 (hex_digits ! n) = n"
  by code_simp

lemma parseInt16_hex: "n < 16 \<Longrightarrow> parseInt16 (hex_digits ! n) = n"
  using parseInt16_hex_all by simp

lemma floorlog_16: "16 \<le> n \<Longrightarrow> floorlog 2 n = floorlog 2 (n div 16) + 4"
proof -
  assume n: "16 \<le> n"
  have "n div 16 = n div 2 div 2 div 2 div 2" by (simp add: div_mult2_eq)
  moreover have "0 < n" "0 < n div 2" "0 < n div 2 div 2" "0 < n div 2 div 2 div 2" using n by auto
  ultimately show ?thesis
    by (simp add: compute_floorlog [of 2 n] compute_floorlog [of 2 "n div 2"]
        compute_floorlog [of 2 "n div 2 div 2"] compute_floorlog [of 2 "n div 2 div 2 div 2"])
qed

lemma toString16_bit_length:
  "0 < n \<Longrightarrow>
   (length (toString16 n) - 1) * 4 + floorlog 2 (parseInt16 (toString16 n ! 0)) = floorlog 2 n
   \<and> parseInt16 (toString16 n ! 0) \<in> {1..15}"
proof (induction n rule: toString16.induct)
  case (1 n)
  show ?case
  proof (cases "n < 16")
    case True
    with 1 show ?thesis by (subst (1 2 3) toString16.simps) (simp add: parseInt16_hex)
  next
    case False
    then have ih: "(length (toString16 (n div 16)) - 1) * 4 +
        floorlog 2 (parseInt16 (toString16 (n div 16) ! 0)) = floorlog 2 (n div 16)
        \<and> parseInt16 (toString16 (n div 16) ! 0) \<in> {1..15}"
      using 1 by simp
    have ne: "toString16 (n div 16) \<noteq> []" by (rule toString16_nonempty)
    then have len: "0 < length (toString16 (n div 16))" by simp
    have eq: "toString16 n = toString16 (n div 16) @ [hex_digits ! (n mod 16)]"
      using False by (subst toString16.simps) simp
    have hd: "toString16 n ! 0 = toString16 (n div 16) ! 0"
      using len by (simp add: eq nth_append)
    have ln: "length (toString16 n) - 1 = (length (toString16 (n div 16)) - 1) + 1"
      using len by (simp add: eq)
    have fl: "floorlog 2 n = floorlog 2 (n div 16) + 4"
      using False by (simp add: floorlog_16)
    show ?thesis unfolding hd ln fl using ih by simp
  qed
qed


lemma bigIntLog2_bitLen:
  assumes M: "\<forall>v\<in>{1..15 :: nat}. \<lfloor>Math_log2 M (real v)\<rfloor> = int (floorlog 2 v) - 1"
    and n: "0 < n"
  shows "bigIntLog2 M n =
     (if bitlen n \<le> 53 then Math_log2 M (real_of_int n)
      else double_add (Math_log2 M (real_of_int (n div 2 ^ nat (bitlen n - 53))))
             (real_of_int (bitlen n - 53)))"
proof -
  let ?hex = "toString16 (nat n)"
  let ?v = "parseInt16 (?hex ! 0)"
  from n have "0 < nat n" by simp
  from toString16_bit_length [OF this]
  have len: "(length ?hex - 1) * 4 + floorlog 2 ?v = floorlog 2 (nat n)" and v: "?v \<in> {1..15}"
    by simp_all
  have ne: "0 < length ?hex" using toString16_nonempty [of "nat n"] by simp
  have fl: "\<lfloor>Math_log2 M (real ?v)\<rfloor> = int (floorlog 2 ?v) - 1" using M v by blast
  have "(int (length ?hex) - 1) * 4 + (\<lfloor>Math_log2 M (real ?v)\<rfloor> + 1) = int ((length ?hex - 1) * 4 + floorlog 2 ?v)"
    using ne by (cases "length ?hex") (simp_all add: fl)
  also have "\<dots> = bitlen n" unfolding len bitlen_def ..
  finally have bl: "(int (length ?hex) - 1) * 4 + (\<lfloor>Math_log2 M (real ?v)\<rfloor> + 1) = bitlen n" .
  show ?thesis using n unfolding bigIntLog2_def Let_def bl
    by (simp add: drop_bit_eq_div)
qed

lemma top_bits_range:
  assumes "0 < n" "53 < bitlen n"
  shows "2 ^ 52 \<le> n div 2 ^ nat (bitlen n - 53) \<and> n div 2 ^ nat (bitlen n - 53) < 2 ^ 53"
proof -
  let ?s = "nat (bitlen n - 53)"
  from bitlen_bounds [OF assms(1)]
  have lo: "2 ^ nat (bitlen n - 1) \<le> n" and hi: "n < 2 ^ nat (bitlen n)" by simp_all
  have e1: "nat (bitlen n - 1) = 52 + ?s" using assms(2) by simp
  have e2: "nat (bitlen n) = 53 + ?s" using assms(2) by simp
  define c :: int where "c = 2 ^ ?s"
  define q where "q = n div c"
  have c: "0 < c" by (simp add: c_def)
  have n_eq: "n = c * q + n mod c" by (simp add: q_def)
  have m: "0 \<le> n mod c" "n mod c < c" using c by simp_all
  have d: "c * (q + 1) = c * q + c" by (simp add: algebra_simps)
  have "c * 2 ^ 52 \<le> n" using lo unfolding e1 by (simp add: power_add c_def mult.commute)
  then have "c * 2 ^ 52 < c * (q + 1)" unfolding d using n_eq m by linarith
  then have "2 ^ 52 < q + 1" using c by (simp only: mult_less_cancel_left_pos)
  moreover have "n < c * 2 ^ 53" using hi unfolding e2 by (simp add: power_add c_def mult.commute)
  then have "c * q < c * 2 ^ 53" using n_eq m by linarith
  then have "q < 2 ^ 53" using c by (simp only: mult_less_cancel_left_pos)
  ultimately have "2 ^ 52 \<le> q \<and> q < 2 ^ 53" by simp
  then show ?thesis by (simp add: q_def c_def)
qed


lemma round_half_even_int: "round_half_even (of_int z) = z"
  by (simp add: round_half_even_def)

lemma to_double_int:
  assumes "0 \<le> k" "k < 2 ^ 53"
  shows "to_double (of_int k) = of_int k"
proof (cases "k = 0")
  case True
  then show ?thesis by (simp add: to_double_def)
next
  case False
  with assms have k: "1 \<le> k" by simp
  define e where "e = \<lfloor>log 2 \<bar>real_of_int k\<bar>\<rfloor>"
  have "0 \<le> log 2 (real_of_int k)" using k by simp
  then have e0: "0 \<le> e" using k by (simp add: e_def)
  have "real_of_int k < 2 ^ 53" using assms(2) by (metis of_int_less_numeral_power_cancel_iff)
  then have "log 2 (real_of_int k) < 53" using k by (simp add: log_less_iff)
  then have "e < 53" using k by (simp add: e_def floor_less_iff)
  then have e52: "e \<le> 52" by simp
  define m where "m = nat (52 - e)"
  have em: "real_of_int e - 52 = - real m" using e52 by (simp add: m_def)
  have u: "(2::real) powr (real_of_int e - 52) = 1 / 2 ^ m"
    unfolding em by (simp add: powr_minus powr_realpow divide_inverse)
  have q: "real_of_int k / (1 / 2 ^ m) = of_int (k * 2 ^ m)" by simp
  have mx: "max e (- 1022) = e" using e0 by simp
  have "to_double (of_int k) = of_int (round_half_even (real_of_int k / (1 / 2 ^ m))) * (1 / 2 ^ m)"
    using False unfolding to_double_def Let_def e_def [symmetric] mx u by simp
  also have "\<dots> = of_int (k * 2 ^ m) * (1 / 2 ^ m)"
    unfolding q round_half_even_int ..
  also have "\<dots> = of_int k" by simp
  finally show ?thesis .
qed

lemma bigIntLog2_power_of_two:
  assumes "log2_adequate M" "w < 2 ^ 53"
  shows "bigIntLog2 M (2 ^ w) = real w"
proof -
  from assms have M1: "\<forall>v\<in>{1..15 :: nat}. \<lfloor>Math_log2 M (real v)\<rfloor> = int (floorlog 2 v) - 1"
    and M2: "\<And>j. j \<le> 52 \<Longrightarrow> Math_log2 M (2 ^ j) = real j"
    by (simp_all add: log2_adequate_def)
  have bl: "bitlen (2 ^ w) = int w + 1"
    using bitlen_twopow_add_eq [of 0 w] by simp
  have pos: "(0::int) < 2 ^ w" by simp
  show ?thesis
  proof (cases "w \<le> 52")
    case True
    then show ?thesis using bigIntLog2_bitLen [OF M1 pos] M2 [of w] by (simp add: bl)
  next
    case False
    then have s: "nat (int w + 1 - 53) = w - 52" by simp
    have "w = 52 + (w - 52)" using False by simp
    then have "(2::int) ^ w = 2 ^ 52 * 2 ^ (w - 52)"
      by (metis power_add)
    then have top: "(2::int) ^ w div 2 ^ (w - 52) = 2 ^ 52" by simp
    have "bigIntLog2 M (2 ^ w) =
            double_add (Math_log2 M (real_of_int (2 ^ 52))) (real_of_int (int w + 1 - 53))"
      using bigIntLog2_bitLen [OF M1 pos] False unfolding bl s top by simp
    also have "Math_log2 M (real_of_int (2 ^ 52)) = 52" using M2 [of 52] by simp
    also have "double_add 52 (real_of_int (int w + 1 - 53)) = to_double (of_int (int w))"
      by (simp add: double_add_def)
    also have "\<dots> = of_int (int w)"
      using assms(2) by (intro to_double_int) simp_all
    finally show ?thesis by simp
  qed
qed

text \<open>
  Claim C9. For a \<open>Math.log2\<close> that is adequate in the sense above, bigIntLog2(n) is
  \<open>Math.log2\<close> of the exactly converted \<open>n\<close> whenever \<open>n\<close> has at most 53 bits, and
  otherwise the double sum of \<open>Math.log2\<close> of the top 53 bits (an integer from \<open>2^52\<close>
  up to \<open>2^53\<close>, converted exactly) and the shift \<open>bitLength - 53\<close>; and
  bigIntLog2(2^n) = n for n = 10, 53, 54 and 500.
\<close>

theorem bigIntLog2_top_53_bits:
  assumes "log2_adequate M"
  shows "(0 < n \<and> bitlen n \<le> 53 \<longrightarrow>
            n < 2 ^ 53 \<and> bigIntLog2 M n = Math_log2 M (real_of_int n)) \<and>
         (0 < n \<and> 53 < bitlen n \<longrightarrow>
            (let shift = bitlen n - 53; top = n div 2 ^ nat shift
             in 2 ^ 52 \<le> top \<and> top < 2 ^ 53 \<and>
                bigIntLog2 M n =
                  double_add (Math_log2 M (real_of_int top)) (real_of_int shift))) \<and>
         bigIntLog2 M (2 ^ 10) = 10 \<and> bigIntLog2 M (2 ^ 53) = 53 \<and>
         bigIntLog2 M (2 ^ 54) = 54 \<and> bigIntLog2 M (2 ^ 500) = 500"
proof -
  from assms have M1: "\<forall>v\<in>{1..15 :: nat}. \<lfloor>Math_log2 M (real v)\<rfloor> = int (floorlog 2 v) - 1"
    by (simp add: log2_adequate_def)
  have a: "n < 2 ^ 53 \<and> bigIntLog2 M n = Math_log2 M (real_of_int n)"
    if "0 < n" "bitlen n \<le> 53"
    using that bigIntLog2_bitLen [OF M1 that(1)] bitlen_le_iff_power [of n 53] by simp
  have b: "let shift = bitlen n - 53; top = n div 2 ^ nat shift
             in 2 ^ 52 \<le> top \<and> top < 2 ^ 53 \<and>
                bigIntLog2 M n =
                  double_add (Math_log2 M (real_of_int top)) (real_of_int shift)"
    if "0 < n" "53 < bitlen n"
    using that bigIntLog2_bitLen [OF M1 that(1)] top_bits_range [OF that] by (simp add: Let_def)
  have c: "bigIntLog2 M (2 ^ 10) = 10" "bigIntLog2 M (2 ^ 53) = 53"
    "bigIntLog2 M (2 ^ 54) = 54" "bigIntLog2 M (2 ^ 500) = 500"
    using bigIntLog2_power_of_two [OF assms, of 10] bigIntLog2_power_of_two [OF assms, of 53]
      bigIntLog2_power_of_two [OF assms, of 54] bigIntLog2_power_of_two [OF assms, of 500]
    by simp_all
  from a b c show ?thesis by blast
qed

lemma log2_adequate_ideal: "log2_adequate ideal_math"
proof -
  have "\<lfloor>log 2 (real v)\<rfloor> = int (floorlog 2 v) - 1" if "v \<in> {1..15}" for v :: nat
  proof -
    from that have "0 < v" by simp
    moreover have "0 \<le> \<lfloor>log 2 (real v)\<rfloor>" using that by simp
    ultimately show ?thesis by (simp add: floorlog_def)
  qed
  then show ?thesis by (simp add: log2_adequate_def ideal_math_def)
qed

theorem bigIntLog2_top_53_bits_witness:
  "log2_adequate ideal_math \<and> bigIntLog2 ideal_math (2 ^ 500) = 500 \<and>
   bigIntLog2 ideal_math 1000 = log 2 1000 \<and>
   bigIntLog2 ideal_math (94 ^ 16) = double_add (log 2 8250606660855662) 52"
proof -
  note t = bigIntLog2_top_53_bits [OF log2_adequate_ideal]
  have "bigIntLog2 ideal_math (2 ^ 500) = 500" using t [of 1] by simp
  moreover have "bitlen 1000 = 10" by (simp add: compute_bitlen)
  then have "bigIntLog2 ideal_math 1000 = log 2 1000"
    using t [of 1000] by (simp add: ideal_math_def)
  moreover have "bitlen (94 ^ 16) = 105" by (simp add: compute_bitlen)
  then have "bigIntLog2 ideal_math (94 ^ 16) = double_add (log 2 8250606660855662) 52"
    using t [of "94 ^ 16"] by (simp add: ideal_math_def Let_def)
  ultimately show ?thesis using log2_adequate_ideal by simp
qed


section \<open>Inclusion-exclusion over a mask: countRemaining\<close>


lemma bit_less_exp: "(x :: nat) < 2 ^ h \<Longrightarrow> bit x i \<Longrightarrow> i < h"
proof -
  assume "x < 2 ^ h" "bit x i"
  then have "bit (take_bit h x) i" by (simp add: take_bit_nat_eq_self)
  then show "i < h" by (simp add: bit_take_bit_iff)
qed

lemma exp_add_eq_or: "(x :: nat) < 2 ^ h \<Longrightarrow> 2 ^ h + x = 2 ^ h OR x"
  by (rule disjunctive_add) (auto simp: bit_exp_iff dest: bit_less_exp)

lemma bit_exp_add: "(x :: nat) < 2 ^ h \<Longrightarrow> bit (2 ^ h + x) i = (i = h \<or> bit x i)"
  by (auto simp: exp_add_eq_or bit_or_iff bit_exp_iff)

lemma and_less_exp: "(a :: nat) < 2 ^ h \<Longrightarrow> a AND b < 2 ^ h"
proof -
  assume a: "a < 2 ^ h"
  have "int (a AND b) = int a AND int b" by (simp add: of_nat_and_eq)
  also have "\<dots> \<le> int a" by (rule AND_upper1) simp
  finally have "a AND b \<le> a" by simp
  with a show ?thesis by simp
qed

lemma and_exp_add_both:
  assumes "(a :: nat) < 2 ^ h" "b < 2 ^ h"
  shows "(2 ^ h + a) AND (2 ^ h + b) = 2 ^ h + (a AND b)"
proof -
  have "(2 ^ h OR a) AND (2 ^ h OR b) = 2 ^ h OR (a AND b)"
    by (rule bit_eqI) (auto simp: bit_and_iff bit_or_iff)
  then show ?thesis
    using assms by (simp add: exp_add_eq_or and_less_exp)
qed

lemma and_exp_add_right:
  assumes "(a :: nat) < 2 ^ h" "b < 2 ^ h"
  shows "a AND (2 ^ h + b) = a AND b"
proof -
  have "a AND (2 ^ h OR b) = a AND b"
    using assms(1)
    by (intro bit_eqI) (auto simp: bit_and_iff bit_or_iff bit_exp_iff dest: bit_less_exp)
  then show ?thesis using assms by (simp add: exp_add_eq_or)
qed

lemma pred_exp_and:
  assumes "(b :: nat) < 2 ^ h"
  shows "(2 ^ h - Suc 0) AND (2 ^ h + b) = b"
proof -
  have "(2 ^ h - Suc 0 :: nat) = mask h" by (simp add: mask_eq_exp_minus_1)
  moreover have "mask h AND (2 ^ h OR b) = b"
    using assms
    by (intro bit_eqI) (auto simp: bit_and_iff bit_or_iff bit_exp_iff bit_mask_iff dest: bit_less_exp)
  ultimately show ?thesis using assms by (simp add: exp_add_eq_or)
qed

lemma submasks_low:
  assumes "nm' < 2 ^ h"
  shows "s < 2 ^ h \<Longrightarrow> submasks (2 ^ h + nm') s = submasks nm' s"
proof (induction s rule: less_induct)
  case (less s)
  show ?case
  proof (cases "s = 0")
    case True
    then show ?thesis by (simp add: submasks.simps [of _ 0])
  next
    case False
    have lt: "s - Suc 0 < 2 ^ h" using less.prems by simp
    have eq: "(s - Suc 0) AND (2 ^ h + nm') = (s - Suc 0) AND nm'"
      using lt assms by (rule and_exp_add_right)
    have "submasks (2 ^ h + nm') ((s - Suc 0) AND nm') = submasks nm' ((s - Suc 0) AND nm')"
      using False lt by (intro less.IH and_pred_less and_less_exp)
    then show ?thesis
      using False by (subst (1 2) submasks.simps) (simp add: eq)
  qed
qed

lemma submasks_high:
  assumes "nm' < 2 ^ h"
  shows "s < 2 ^ h \<Longrightarrow>
    submasks (2 ^ h + nm') (2 ^ h + s) = map ((+) (2 ^ h)) (submasks nm' s) @ submasks nm' nm'"
proof (induction s rule: less_induct)
  case (less s)
  show ?case
  proof (cases "s = 0")
    case True
    have "submasks (2 ^ h + nm') (2 ^ h) = 2 ^ h # submasks (2 ^ h + nm') nm'"
      by (subst submasks.simps) (simp add: pred_exp_and [OF assms])
    then show ?thesis
      using True assms by (simp add: submasks_low submasks.simps [of _ 0])
  next
    case False
    have lt: "s - Suc 0 < 2 ^ h" using less.prems by simp
    have "2 ^ h + s - Suc 0 = 2 ^ h + (s - Suc 0)" using False by simp
    then have eq: "(2 ^ h + s - Suc 0) AND (2 ^ h + nm') = 2 ^ h + ((s - Suc 0) AND nm')"
      using and_exp_add_both [OF lt assms] by simp
    have ih: "submasks (2 ^ h + nm') (2 ^ h + ((s - Suc 0) AND nm')) =
          map ((+) (2 ^ h)) (submasks nm' ((s - Suc 0) AND nm')) @ submasks nm' nm'"
      using False lt by (intro less.IH and_pred_less and_less_exp)
    show ?thesis
      using False
      by (subst submasks.simps, subst (2) submasks.simps) (simp add: eq ih)
  qed
qed

lemma submasks_le: "t \<in> set (submasks nm s) \<Longrightarrow> t \<le> s"
proof (induction s arbitrary: t rule: less_induct)
  case (less s)
  show ?case
  proof (cases "s = 0")
    case True
    with less.prems show ?thesis by (simp add: submasks.simps [of _ 0])
  next
    case False
    from less.prems False have "t = s \<or> t \<in> set (submasks nm ((s - Suc 0) AND nm))"
      by (subst (asm) submasks.simps) simp
    then show ?thesis
    proof
      assume "t = s" then show ?thesis by simp
    next
      assume "t \<in> set (submasks nm ((s - Suc 0) AND nm))"
      then have "t \<le> (s - Suc 0) AND nm" using False by (intro less.IH and_pred_less)
      with and_pred_less [OF False, of nm] show ?thesis by simp
    qed
  qed
qed


lemma sum_list_uminus: "(\<Sum>t\<leftarrow>xs. - f t) = - (\<Sum>t\<leftarrow>xs. f t :: int)"
  by (induction xs) auto

lemma mask_term_high:
  assumes "t < 2 ^ h" "h < length sizes"
  shows "mask_term sizes M R (2 ^ h + t) = - mask_term sizes (M - sizes ! h) R t"
proof -
  let ?B = "{i. i < length sizes \<and> bit t i}"
  have set_eq: "{i. i < length sizes \<and> bit (2 ^ h + t) i} = insert h ?B"
    using assms by (auto simp: bit_exp_add)
  have fin: "finite ?B" by simp
  have notin: "h \<notin> ?B" using assms(1) by (auto dest: bit_less_exp)
  show ?thesis
    unfolding mask_term_def set_eq using fin notin by (simp add: algebra_simps)
qed

lemma sum_submasks:
  assumes "nm < 2 ^ length sizes"
  shows "(\<Sum>t\<leftarrow>submasks nm nm. mask_term sizes M R t) = pie_sum sizes M R {i. bit nm i}"
  using assms
proof (induction nm arbitrary: M rule: less_induct)
  case (less nm)
  show ?case
  proof (cases "nm = 0")
    case True
    then show ?thesis
      by (simp add: submasks.simps [of _ 0] mask_term_def pie_sum_empty)
  next
    case False
    then obtain h where h: "2 ^ h \<le> nm" "nm < 2 ^ (h + 1)"
      using ex_power_ivl1 [of 2 nm] by auto
    define nm' where "nm' = nm - 2 ^ h"
    have nm: "nm = 2 ^ h + nm'" and nm': "nm' < 2 ^ h" using h by (simp_all add: nm'_def)
    have hk: "h < length sizes"
    proof (rule ccontr)
      assume "\<not> h < length sizes"
      then have "(2::nat) ^ length sizes \<le> 2 ^ h" by (simp add: power_increasing)
      with h(1) less.prems show False by simp
    qed
    have lt: "nm' < nm" using nm by simp
    have nm'k: "nm' < 2 ^ length sizes" using lt less.prems by simp
    have split: "submasks nm nm = map ((+) (2 ^ h)) (submasks nm' nm') @ submasks nm' nm'"
      unfolding nm using submasks_high [OF nm' nm'] .
    have small: "t < 2 ^ h" if "t \<in> set (submasks nm' nm')" for t
      using submasks_le [OF that] nm' by simp
    have "(\<Sum>t\<leftarrow>submasks nm nm. mask_term sizes M R t) =
          (\<Sum>t\<leftarrow>submasks nm' nm'. mask_term sizes M R (2 ^ h + t)) +
          (\<Sum>t\<leftarrow>submasks nm' nm'. mask_term sizes M R t)"
      by (simp add: split comp_def)
    also have "(\<Sum>t\<leftarrow>submasks nm' nm'. mask_term sizes M R (2 ^ h + t)) =
          (\<Sum>t\<leftarrow>submasks nm' nm'. - mask_term sizes (M - sizes ! h) R t)"
      by (rule arg_cong [where f = sum_list], rule map_cong [OF refl])
         (simp add: mask_term_high [OF small hk])
    also have "\<dots> = - (\<Sum>t\<leftarrow>submasks nm' nm'. mask_term sizes (M - sizes ! h) R t)"
      by (rule sum_list_uminus)
    finally have "(\<Sum>t\<leftarrow>submasks nm nm. mask_term sizes M R t) =
          pie_sum sizes M R {i. bit nm' i} - pie_sum sizes (M - sizes ! h) R {i. bit nm' i}"
      using less.IH [OF lt nm'k] by simp
    moreover have "{i. bit nm i} = insert h {i. bit nm' i}"
      unfolding nm using nm' by (auto simp: bit_exp_add)
    moreover have "h \<notin> {i. bit nm' i}" using nm' by (auto dest: bit_less_exp)
    moreover have "finite {i. bit nm' i}"
      by (rule finite_subset [of _ "{..<h}"]) (use nm' in \<open>auto dest: bit_less_exp\<close>)
    ultimately show ?thesis by (simp add: pie_sum_insert)
  qed
qed


lemma foldl_select:
  "foldl (\<lambda>(ms, b) i. if P i then (ms + g i, b + 1) else (ms, b)) (a, c) xs =
   (a + sum_list (map g (filter P xs)), c + length (filter P xs) :: nat)"
  for a :: nat
  by (induction xs arbitrary: a c) auto

lemma test_bit_word:
  fixes sub :: "32 word"
  assumes "i < 32"
  shows "(sub AND push_bit (i mod 32) 1 \<noteq> 0) = bit (unat sub) i"
  using assms by (simp add: and_exp_eq_0_iff_not_bit bit_unsigned_iff)

lemma countRemaining_missing_eq:
  assumes "length sizes \<le> 32"
  shows "countRemaining_missing sizes sub =
     ((\<Sum>i | i < length sizes \<and> bit (unat sub) i. sizes ! i),
      card {i. i < length sizes \<and> bit (unat sub) i})"
proof -
  let ?P = "\<lambda>i. sub AND push_bit (i mod 32) 1 \<noteq> 0"
  have flt: "filter ?P [0..<length sizes] = filter (\<lambda>i. bit (unat sub) i) [0..<length sizes]"
    using assms by (intro filter_cong refl test_bit_word) auto
  have set_eq: "set (filter (\<lambda>i. bit (unat sub) i) [0..<length sizes]) =
      {i. i < length sizes \<and> bit (unat sub) i}" by auto
  have d: "distinct (filter (\<lambda>i. bit (unat sub) i) [0..<length sizes])" by simp
  have "countRemaining_missing sizes sub =
        (sum_list (map ((!) sizes) (filter ?P [0..<length sizes])),
         length (filter ?P [0..<length sizes]))"
    unfolding countRemaining_missing_def by (simp add: foldl_select)
  also have "sum_list (map ((!) sizes) (filter ?P [0..<length sizes])) =
        (\<Sum>i | i < length sizes \<and> bit (unat sub) i. sizes ! i)"
    unfolding flt using sum_list_distinct_conv_sum_set [OF d, of "(!) sizes"] set_eq by simp
  also have "length (filter ?P [0..<length sizes]) = card {i. i < length sizes \<and> bit (unat sub) i}"
    unfolding flt using distinct_card [OF d] set_eq by simp
  finally show ?thesis .
qed

lemma sum_subset_le:
  "(\<Sum>i | i < length sizes \<and> Q i. sizes ! i) \<le> (sum_list sizes :: nat)"
proof -
  have "(\<Sum>i | i < length sizes \<and> Q i. sizes ! i) \<le> (\<Sum>i\<in>{0..<length sizes}. sizes ! i)"
    by (rule sum_mono2) auto
  then show ?thesis by (simp add: sum_list_sum_nth)
qed

lemma countRemaining_loop_sum:
  assumes "length sizes \<le> 32" "sum_list sizes \<le> N"
  shows "countRemaining_loop sizes N R nm sub tot =
     tot + (\<Sum>t\<leftarrow>submasks (unat nm) (unat sub). mask_term (map int sizes) (int N) R t)"
  using assms
proof (induction sizes N R nm sub tot rule: countRemaining_loop.induct)
  case (1 sizes poolSize R neededMask sub tot)
  let ?B = "{i. i < length sizes \<and> bit (unat sub) i}"
  let ?ms = "\<Sum>i\<in>?B. sizes ! i"
  have miss: "countRemaining_missing sizes sub = (?ms, card ?B)"
    using "1.prems"(1) by (rule countRemaining_missing_eq)
  have le: "?ms \<le> poolSize" using sum_subset_le [of sizes] "1.prems"(2) by (rule order_trans)
  then have "int ?ms \<le> int poolSize" by (rule iffD2 [OF of_nat_le_iff])
  then have rem: "\<not> int poolSize - int ?ms < 0" by linarith
  have mt: "mask_term (map int sizes) (int poolSize) R (unat sub) =
        (if card ?B mod 2 = 0 then (int poolSize - int ?ms) ^ R else - ((int poolSize - int ?ms) ^ R))"
  proof -
    have "(\<Sum>i\<in>?B. map int sizes ! i) = int ?ms" by simp
    moreover have "(- 1 :: int) ^ card ?B = (if card ?B mod 2 = 0 then 1 else - 1)"
      by (cases "even (card ?B)") (auto simp: even_iff_mod_2_eq_zero)
    ultimately show ?thesis by (simp add: mask_term_def)
  qed
  show ?case
  proof (cases "sub = 0")
    case True
    then show ?thesis
      using miss le mt
      by (subst countRemaining_loop.simps) (simp add: submasks.simps [of _ 0] Let_def not_less [symmetric])
  next
    case False
    have step: "unat ((sub - 1) AND neededMask) = (unat sub - Suc 0) AND unat neededMask"
      using False by (simp add: unsigned_and_eq unat_minus_one)
    have un: "unat sub \<noteq> 0" using False by (simp add: unat_eq_0)
    define tot2 where "tot2 = (if card ?B mod 2 = 0 then tot + (int poolSize - int ?ms) ^ R
                               else tot - (int poolSize - int ?ms) ^ R)"
    have ih: "countRemaining_loop sizes poolSize R neededMask ((sub - 1) AND neededMask) tot2 =
        tot2 + (\<Sum>t\<leftarrow>submasks (unat neededMask) (unat ((sub - 1) AND neededMask)).
                 mask_term (map int sizes) (int poolSize) R t)"
      unfolding tot2_def
      by (rule "1.IH"(2) [OF refl miss [symmetric] refl rem refl refl False "1.prems"])
    have t2: "tot2 = tot + mask_term (map int sizes) (int poolSize) R (unat sub)"
      unfolding mt tot2_def by simp
    have "countRemaining_loop sizes poolSize R neededMask sub tot =
          countRemaining_loop sizes poolSize R neededMask ((sub - 1) AND neededMask) tot2"
      using miss le False
      by (subst countRemaining_loop.simps) (simp add: Let_def tot2_def not_less [symmetric])
    also note ih
    also have "submasks (unat neededMask) (unat sub) =
          unat sub # submasks (unat neededMask) (unat ((sub - 1) AND neededMask))"
      using un by (subst submasks.simps) (simp add: step)
    then have "tot2 + (\<Sum>t\<leftarrow>submasks (unat neededMask) (unat ((sub - 1) AND neededMask)).
                 mask_term (map int sizes) (int poolSize) R t) =
          tot + (\<Sum>t\<leftarrow>submasks (unat neededMask) (unat sub).
                 mask_term (map int sizes) (int poolSize) R t)"
      by (simp add: t2)
    finally show ?thesis .
  qed
qed


lemma sint_word_of_int_32:
  assumes "- (2 ^ 31) \<le> x" "x < 2 ^ 31"
  shows "sint (word_of_int x :: 32 word) = x"
  using assms by (simp add: sint_sbintrunc' signed_take_bit_int_eq_self)

lemma sint_exp_32: "k \<le> 30 \<Longrightarrow> sint (push_bit (k mod 32) (1 :: 32 word)) = 2 ^ k"
proof -
  assume k: "k \<le> 30"
  have "(2 :: int) ^ k < 2 ^ 31" using k by (intro power_strict_increasing) auto
  moreover have "- (2 ^ 31) \<le> (2 :: int) ^ k"
    by (rule order_trans [of _ 0]) simp_all
  ultimately have "sint (word_of_int (2 ^ k) :: 32 word) = 2 ^ k"
    by (intro sint_word_of_int_32)
  then show ?thesis using k by simp
qed

lemma unat_word_of_int_32:
  assumes "0 \<le> x" "x < 2 ^ 32"
  shows "unat (word_of_int x :: 32 word) = nat x"
  using assms by (simp add: unsigned_of_int take_bit_int_eq_self)

lemma xor_mask_bits:
  assumes "c < 2 ^ k"
  shows "(2 ^ k - Suc 0) XOR c < 2 ^ k"
    and "bit ((2 ^ k - Suc 0) XOR c) i = (i < k \<and> \<not> bit c i)"
proof -
  have m: "(2 ^ k - Suc 0 :: nat) = mask k" by (simp add: mask_eq_exp_minus_1)
  show b: "bit ((2 ^ k - Suc 0) XOR c) i = (i < k \<and> \<not> bit c i)" for i
    using assms unfolding m by (auto simp: bit_xor_iff bit_mask_iff dest: bit_less_exp)
  have "take_bit k ((2 ^ k - Suc 0) XOR c) = (2 ^ k - Suc 0) XOR c"
    by (rule bit_eqI) (simp only: bit_take_bit_iff b, auto)
  then show "(2 ^ k - Suc 0) XOR c < 2 ^ k" by (simp only: take_bit_nat_eq_self_iff)
qed

lemma countRemaining_pie_sum:
  assumes r: "0 \<le> remLen" and nn: "\<forall>s\<in>set sizes. 0 \<le> s" and k: "length sizes \<le> 30"
    and cm: "0 \<le> cm" "cm < 2 ^ length sizes"
  shows "countRemaining remLen sizes cm =
     Inr (pie_sum sizes (sum_list sizes) (nat remLen) {i. i < length sizes \<and> \<not> bit cm i})"
proof -
  let ?k = "length sizes"
  define nm :: "32 word" where "nm = word_of_int (2 ^ ?k - 1) XOR word_of_int cm"
  have p31: "(2 :: int) ^ ?k \<le> 2 ^ 30" using k by (intro power_increasing) auto
  have all: "sint (push_bit (?k mod 32) (1 :: 32 word)) - 1 = 2 ^ ?k - 1"
    using sint_exp_32 [OF k] by (simp only:)
  have c: "nat cm < 2 ^ ?k" using cm by (simp add: nat_less_iff)
  have "unat nm = unat (word_of_int (2 ^ ?k - 1) :: 32 word) XOR unat (word_of_int cm :: 32 word)"
    unfolding nm_def by (rule unsigned_xor_eq)
  also have "unat (word_of_int (2 ^ ?k - 1) :: 32 word) = nat (2 ^ ?k - 1)"
    using p31 by (intro unat_word_of_int_32) auto
  also have "nat (2 ^ ?k - 1 :: int) = 2 ^ ?k - Suc 0"
    by (simp add: nat_diff_distrib nat_power_eq)
  also have "unat (word_of_int cm :: 32 word) = nat cm"
    using cm p31 by (intro unat_word_of_int_32) auto
  finally have un: "unat nm = (2 ^ ?k - Suc 0) XOR nat cm" .
  have lt: "unat nm < 2 ^ length (map int (map nat sizes))"
    unfolding un using xor_mask_bits(1) [OF c] by simp
  have bits: "{i. bit (unat nm) i} = {i. i < ?k \<and> \<not> bit cm i}"
    unfolding un using cm(1) by (auto simp: xor_mask_bits(2) [OF c] bit_nat_iff)
  have "countRemaining_loop (map nat sizes) (sum_list (map nat sizes)) (nat remLen) nm nm 0 =
        0 + (\<Sum>t\<leftarrow>submasks (unat nm) (unat nm).
               mask_term (map int (map nat sizes)) (int (sum_list (map nat sizes))) (nat remLen) t)"
    using k by (intro countRemaining_loop_sum) auto
  also have "\<dots> = pie_sum (map int (map nat sizes)) (int (sum_list (map nat sizes))) (nat remLen)
        {i. bit (unat nm) i}"
    using sum_submasks [OF lt] by simp
  also have "\<dots> = pie_sum sizes (sum_list sizes) (nat remLen) {i. i < ?k \<and> \<not> bit cm i}"
    using nn by (simp add: bits map_int_nat sum_list_map_nat)
  finally have "countRemaining_loop (map nat sizes) (sum_list (map nat sizes)) (nat remLen) nm nm 0 =
        pie_sum sizes (sum_list sizes) (nat remLen) {i. i < ?k \<and> \<not> bit cm i}" .
  moreover have "\<not> (cm > 2 ^ ?k - 1)" using cm by simp
  ultimately show ?thesis
    using r nn cm(1) unfolding countRemaining_def Let_def all nm_def [symmetric] by auto
qed


lemma pie_sum_length_0:
  assumes "finite A"
  shows "pie_sum sizes M 0 A = (if A = {} then 1 else 0)"
  using assms
proof (induction A arbitrary: M rule: finite_induct)
  case empty
  show ?case by (simp add: pie_sum_empty)
next
  case (insert a A)
  have "pie_sum sizes M 0 A = pie_sum sizes (M - sizes ! a) 0 A"
    by (simp add: insert.IH)
  then show ?case using insert.hyps by (simp add: pie_sum_insert)
qed

text \<open>
  Claim C7, amended. For at most 30 classes (the masks are 32-bit integers), a
  non-negative \<open>remLen\<close> and non-negative sizes: for a mask within range, countRemaining
  is the inclusion-exclusion sum over the subsets of the classes whose bit is unset in
  the mask; with the mask 0 it agrees with countValidSequences; with every class marked
  satisfied it is the pool size to the power \<open>remLen\<close>.
\<close>

theorem countRemaining_unsatisfied_classes:
  assumes "0 \<le> remLen" and "\<forall>s\<in>set sizes. 0 \<le> s" and "length sizes \<le> 30"
  shows "(0 \<le> satisfiedMask \<and> satisfiedMask < 2 ^ length sizes \<longrightarrow>
            countRemaining remLen sizes satisfiedMask =
              Inr (\<Sum>S\<in>Pow {i. i < length sizes \<and> \<not> bit satisfiedMask i}.
                     (- 1) ^ card S * (sum_list sizes - (\<Sum>i\<in>S. sizes ! i)) ^ nat remLen)) \<and>
         countRemaining remLen sizes 0 = countValidSequences remLen sizes \<and>
         countRemaining remLen sizes (2 ^ length sizes - 1) = Inr (sum_list sizes ^ nat remLen)"
proof -
  note cr = countRemaining_pie_sum [OF assms]
  have a: "countRemaining remLen sizes satisfiedMask =
              Inr (\<Sum>S\<in>Pow {i. i < length sizes \<and> \<not> bit satisfiedMask i}.
                     (- 1) ^ card S * (sum_list sizes - (\<Sum>i\<in>S. sizes ! i)) ^ nat remLen)"
    if "0 \<le> satisfiedMask" "satisfiedMask < 2 ^ length sizes"
    using cr [OF that] by (simp add: pie_sum_def)
  have "{i. i < length sizes \<and> \<not> bit (0 :: int) i} = {..<length sizes}" by auto
  then have b: "countRemaining remLen sizes 0 = countValidSequences remLen sizes"
    using cr [of 0] countValidSequences_pie_sum [OF assms(1,2)] by simp
  have e: "{i. i < length sizes \<and> \<not> bit (2 ^ length sizes - 1 :: int) i} = {}"
    by (auto simp: bit_mask_iff simp flip: mask_eq_exp_minus_1)
  have "countRemaining remLen sizes (2 ^ length sizes - 1) =
        Inr (pie_sum sizes (sum_list sizes) (nat remLen)
          {i. i < length sizes \<and> \<not> bit (2 ^ length sizes - 1 :: int) i})"
    by (rule cr) simp_all
  then have c: "countRemaining remLen sizes (2 ^ length sizes - 1) = Inr (sum_list sizes ^ nat remLen)"
    unfolding e by (simp add: pie_sum_empty)
  from a b c show ?thesis by blast
qed

theorem countRemaining_unsatisfied_classes_witness:
  "countRemaining 3 [2, 3] 1 = Inr 117 \<and> countRemaining 3 [2, 3] 0 = countValidSequences 3 [2, 3] \<and>
   countRemaining 3 [2, 3] 3 = Inr 125"
proof -
  have h: "(0 :: int) \<le> 3" "\<forall>s\<in>set [2, 3 :: int]. 0 \<le> s" "length [2, 3 :: int] \<le> 30" by simp_all
  note t = countRemaining_unsatisfied_classes [OF h]
  have "{i. i < length [2, 3 :: int] \<and> \<not> bit (1 :: int) i} = {1}"
    by (auto simp: bit_Suc less_Suc_eq elim: less_SucE)
  then have "countRemaining 3 [2, 3] 1 = Inr 117"
    using t [of 1] by (simp add: Pow_insert)
  moreover have "countRemaining 3 [2, 3] 0 = countValidSequences 3 [2, 3]"
    by (rule t [THEN conjunct2, THEN conjunct1])
  moreover have "countRemaining 3 [2, 3] 3 = Inr 125"
    using t [THEN conjunct2, THEN conjunct2] by simp
  ultimately show ?thesis by simp
qed

text \<open>
  With 31 classes \<open>(1 << 31) - 1\<close> is negative, so countRemaining refuses every mask,
  while countValidSequences returns the count.
\<close>

theorem countRemaining_31_classes_counterexample:
  "countRemaining 0 (replicate 31 1) 0 = Inl RangeError \<and>
   countValidSequences 0 (replicate 31 1) = Inr 0"
proof -
  have "countRemaining 0 (replicate 31 1) 0 = Inl RangeError"
    by (simp add: countRemaining_def)
  moreover have "(0 :: nat) \<in> {..<31}" by simp
  then have "{..<31 :: nat} \<noteq> {}" by blast
  then have "countValidSequences 0 (replicate 31 1) = Inr 0"
    using countValidSequences_pie_sum [of 0 "replicate 31 1"]
    by (simp add: pie_sum_length_0)
  ultimately show ?thesis by simp
qed


section \<open>The rejection loop of getSecureRandomInt\<close>


lemma getSecureRandomInt_loop_result:
  assumes "getSecureRandomInt_loop rnd limit n = Some y"
  shows "n < snd y \<and> (case fst y of Inr x \<Rightarrow> 0 \<le> x \<and> x < limit | Inl e \<Rightarrow> \<exists>i\<ge>n. rnd i = None)"
proof (rule getSecureRandomInt_loop.raw_induct
    [where P = "\<lambda>rnd limit n y. n < snd y \<and>
       (case fst y of Inr x \<Rightarrow> 0 \<le> x \<and> x < limit | Inl e \<Rightarrow> \<exists>i\<ge>n. rnd i = None)", OF _ assms],
    goal_cases)
  case (1 loop rnd limit n y)
  show ?case
  proof (cases "rnd n")
    case None
    with 1(2) show ?thesis by auto
  next
    case (Some buf)
    show ?thesis
    proof (cases "limit \<le> int (buf 0 mod 2 ^ 32)")
      case True
      with 1(2) Some have "loop rnd limit (Suc n) = Some y" by simp
      from 1(1) [OF this] show ?thesis
        by (auto split: sum.splits intro: Suc_leD)
    next
      case False
      with 1(2) Some show ?thesis by auto
    qed
  qed
qed

lemma getSecureRandomInt_loop_terminates:
  assumes "n \<le> m" "\<forall>i. n \<le> i \<and> i \<le> m \<longrightarrow> rnd i \<noteq> None"
    and "int (the (rnd m) 0 mod 2 ^ 32) < limit"
  shows "\<exists>x n'. getSecureRandomInt_loop rnd limit n = Some (Inr x, n') \<and> 0 \<le> x \<and> x < limit"
  using assms
proof (induction "m - n" arbitrary: n)
  case 0
  then have nm: "n = m" by simp
  from 0 obtain buf where buf: "rnd m = Some buf" by (cases "rnd m") (auto simp: nm)
  with 0 show ?case
    by (subst getSecureRandomInt_loop.simps) (simp add: nm)
next
  case (Suc d)
  then have lt: "n < m" by simp
  from Suc.prems obtain buf where buf: "rnd n = Some buf" by (cases "rnd n") auto
  show ?case
  proof (cases "limit \<le> int (buf 0 mod 2 ^ 32)")
    case True
    have "\<exists>x n'. getSecureRandomInt_loop rnd limit (Suc n) = Some (Inr x, n') \<and> 0 \<le> x \<and> x < limit"
      using Suc.hyps(2) lt Suc.prems by (intro Suc.hyps(1)) auto
    then show ?thesis using buf True by (subst getSecureRandomInt_loop.simps) simp
  next
    case False
    then show ?thesis using buf by (subst getSecureRandomInt_loop.simps) simp
  qed
qed

lemma getSecureRandomInt_loop_diverges:
  assumes "\<forall>i\<ge>n. \<exists>buf. rnd i = Some buf \<and> limit \<le> int (buf 0 mod 2 ^ 32)"
  shows "getSecureRandomInt_loop rnd limit n = None"
proof (rule ccontr)
  assume "getSecureRandomInt_loop rnd limit n \<noteq> None"
  then obtain y where "getSecureRandomInt_loop rnd limit n = Some y" by auto
  then have "\<exists>i\<ge>n. \<not> (\<exists>buf. rnd i = Some buf \<and> limit \<le> int (buf 0 mod 2 ^ 32))"
  proof (rule getSecureRandomInt_loop.raw_induct
      [where P = "\<lambda>rnd limit n y. \<exists>i\<ge>n. \<not> (\<exists>buf. rnd i = Some buf \<and> limit \<le> int (buf 0 mod 2 ^ 32))",
        rotated], goal_cases)
    case (1 loop rnd limit n y)
    show ?case
    proof (cases "\<exists>buf. rnd n = Some buf \<and> limit \<le> int (buf 0 mod 2 ^ 32)")
      case True
      then obtain buf where "rnd n = Some buf" "limit \<le> int (buf 0 mod 2 ^ 32)" by auto
      with 1(2) have "loop rnd limit (Suc n) = Some y" by simp
      from 1(1) [OF this] show ?thesis by (auto intro: Suc_leD)
    next
      case False
      then show ?thesis by auto
    qed
  qed
  with assms show False by auto
qed

lemma getSecureRandomInt_range:
  assumes "getSecureRandomInt rnd mx n = Some (Inr v, n')"
  shows "0 \<le> v \<and> (0 < mx \<longrightarrow> v < mx) \<and> n \<le> n'"
proof (cases "mx \<le> 1")
  case True
  with assms show ?thesis by (auto simp: getSecureRandomInt_def split: if_splits)
next
  case False
  with assms obtain x where
    x: "getSecureRandomInt_loop rnd (4294967296 div mx * mx) n = Some (Inr x, n')" and v: "v = x mod mx"
    by (auto simp: getSecureRandomInt_def bind_run_def Let_def split: option.splits sum.splits prod.splits)
  from getSecureRandomInt_loop_result [OF x] have "n < n'" by simp
  with False v show ?thesis by simp
qed

lemma limit_positive:
  assumes "2 \<le> mx" "mx \<le> 4294967296"
  shows "0 < 4294967296 div mx * (mx :: int)"
proof -
  have "4294967296 div 4294967296 \<le> 4294967296 div mx"
    using assms by (intro zdiv_mono2) auto
  then have "1 \<le> 4294967296 div mx" by simp
  then show ?thesis using assms by simp
qed

lemma limit_zero: "4294967296 < mx \<Longrightarrow> 4294967296 div mx * (mx :: int) = 0"
  by simp


section \<open>Rejection sampling, guaranteed inclusion and the shuffle\<close>


lemma bind_run_Inr:
  assumes "bind_run r f = Some (Inr v, s')"
  obtains u s where "r = Some (Inr u, s)" "f u s = Some (Inr v, s')"
  using assms by (auto simp: bind_run_def split: option.splits sum.splits prod.splits)

lemma bind_run_Inl:
  assumes "bind_run r f = Some (Inl e, s')"
  shows "r = Some (Inl e, s') \<or> (\<exists>u s. r = Some (Inr u, s) \<and> f u s = Some (Inl e, s'))"
  using assms by (auto simp: bind_run_def split: option.splits sum.splits prod.splits)

lemma getSecureRandomInt_no_throw:
  assumes "available rnd"
  shows "getSecureRandomInt rnd mx n \<noteq> Some (Inl e, n')"
proof
  assume a: "getSecureRandomInt rnd mx n = Some (Inl e, n')"
  then have "getSecureRandomInt_loop rnd (4294967296 div mx * mx) n = Some (Inl e, n')"
    by (auto simp: getSecureRandomInt_def Let_def split: if_splits dest!: bind_run_Inl)
  from getSecureRandomInt_loop_result [OF this] obtain i where "rnd i = None" by auto
  with assms show False unfolding available_def by blast
qed

lemma getSecureRandomInt_index:
  assumes "getSecureRandomInt rnd (int (length xs)) n = Some (Inr j, n')" "xs \<noteq> []"
  shows "js_at xs j = Some (xs ! nat j) \<and> nat j < length xs"
  using getSecureRandomInt_range [OF assms(1)] assms(2) by (auto simp: js_at_def)

lemma fisherYatesShuffle_loop_result:
  assumes "fisherYatesShuffle_loop rnd i array n = Some (Inr out, n')" "i < length array \<or> i = 0"
  shows "length out = length array \<and> set out = set array"
  using assms
proof (induction i arbitrary: array n)
  case 0
  then show ?case by simp
next
  case (Suc i)
  from Suc.prems(1) obtain j n1 where
    j: "getSecureRandomInt rnd (int (Suc i) + 1) n = Some (Inr j, n1)" and
    rest: "fisherYatesShuffle_loop rnd i ((array[Suc i := array ! nat j])[nat j := array ! Suc i]) n1
           = Some (Inr out, n')"
    by (auto elim!: bind_run_Inr)
  from getSecureRandomInt_range [OF j] have jr: "nat j \<le> Suc i" by auto
  have len: "Suc i < length array" using Suc.prems(2) by simp
  let ?a = "(array[Suc i := array ! nat j])[nat j := array ! Suc i]"
  have "length out = length ?a \<and> set out = set ?a"
    using rest len by (intro Suc.IH) auto
  moreover have "set ?a = set array" using len jr by (intro set_swap) auto
  ultimately show ?case by simp
qed

lemma fisherYatesShuffle_result:
  assumes "fisherYatesShuffle rnd array n = Some (Inr out, n')"
  shows "length out = length array \<and> set out = set array"
proof -
  have "length array - 1 < length array \<or> length array - 1 = 0" by (cases array) auto
  with assms show ?thesis
    unfolding fisherYatesShuffle_def by (intro fisherYatesShuffle_loop_result)
qed

lemma fisherYatesShuffle_loop_no_throw:
  assumes "available rnd"
  shows "fisherYatesShuffle_loop rnd i array n \<noteq> Some (Inl e, n')"
proof (induction i arbitrary: array n)
  case 0
  show ?case by simp
next
  case (Suc i)
  show ?case
    using getSecureRandomInt_no_throw [OF assms] Suc.IH
    by (auto dest!: bind_run_Inl)
qed

lemma tryRandomSampling_draw_result:
  assumes "tryRandomSampling_draw rnd pool c temp n = Some (Inr out, n')" "pool \<noteq> []"
  shows "length out = length temp + c \<and> set out \<subseteq> set temp \<union> Some ` set pool"
  using assms
proof (induction c arbitrary: temp n)
  case 0
  then show ?case by auto
next
  case (Suc c)
  from Suc.prems(1) obtain j n1 where
    j: "getSecureRandomInt rnd (int (length pool)) n = Some (Inr j, n1)" and
    rest: "tryRandomSampling_draw rnd pool c (temp @ [js_at pool j]) n1 = Some (Inr out, n')"
    by (auto elim!: bind_run_Inr)
  from getSecureRandomInt_index [OF j Suc.prems(2)]
  have "js_at pool j \<in> Some ` set pool" by auto
  with Suc.IH [OF rest Suc.prems(2)] show ?case by auto
qed

lemma tryRandomSampling_draw_no_throw:
  assumes "available rnd"
  shows "tryRandomSampling_draw rnd pool c temp n \<noteq> Some (Inl e, n')"
proof (induction c arbitrary: temp n)
  case 0
  show ?case by simp
next
  case (Suc c)
  show ?case
    using getSecureRandomInt_no_throw [OF assms] Suc.IH
    by (auto dest!: bind_run_Inl)
qed

lemma tryRandomSampling_loop_result:
  assumes "tryRandomSampling_loop rnd len pool activeSets forceEach a n = Some (Inr (Some temp), n')"
    and "pool \<noteq> []"
  shows "length temp = len \<and> set temp \<subseteq> Some ` set pool \<and>
         (forceEach \<longrightarrow> (\<forall>s\<in>set activeSets. \<exists>ch\<in>set temp. includes_str s ch))"
  using assms
proof (induction a arbitrary: n)
  case 0
  then show ?case by simp
next
  case (Suc a)
  from Suc.prems(1) obtain t n1 where
    t: "tryRandomSampling_draw rnd pool len [] n = Some (Inr t, n1)" and
    rest: "(if forceEach \<and> (\<exists>s\<in>set activeSets. \<not> (\<exists>char\<in>set t. includes_str s char))
            then tryRandomSampling_loop rnd len pool activeSets forceEach a n1
            else Some (Inr (Some t), n1)) = Some (Inr (Some temp), n')"
    by (auto elim!: bind_run_Inr)
  show ?case
  proof (cases "forceEach \<and> (\<exists>s\<in>set activeSets. \<not> (\<exists>char\<in>set t. includes_str s char))")
    case True
    with rest Suc.IH Suc.prems(2) show ?thesis by simp
  next
    case False
    with rest have "temp = t" by (auto split: if_splits)
    with tryRandomSampling_draw_result [OF t Suc.prems(2)] False show ?thesis by auto
  qed
qed

lemma tryRandomSampling_loop_no_throw:
  assumes "available rnd"
  shows "tryRandomSampling_loop rnd len pool activeSets forceEach a n \<noteq> Some (Inl e, n')"
proof (induction a arbitrary: n)
  case 0
  show ?case by simp
next
  case (Suc a)
  show ?case
    using tryRandomSampling_draw_no_throw [OF assms] Suc.IH
    by (auto dest!: bind_run_Inl split: if_splits)
qed


lemma generateGuaranteed_each_result:
  assumes "generateGuaranteed_each rnd sets arr n = Some (Inr out, n')" "\<forall>s\<in>set sets. s \<noteq> []"
  shows "\<exists>picks. out = arr @ picks \<and> list_all2 (\<lambda>s p. p \<in> Some ` set s) sets picks"
  using assms
proof (induction sets arbitrary: arr n)
  case Nil
  then show ?case by simp
next
  case (Cons s sets)
  from Cons.prems(1) obtain j n1 where
    j: "getSecureRandomInt rnd (int (length s)) n = Some (Inr j, n1)" and
    rest: "generateGuaranteed_each rnd sets (arr @ [js_at s j]) n1 = Some (Inr out, n')"
    by (auto elim!: bind_run_Inr)
  have "s \<noteq> []" using Cons.prems(2) by simp
  from getSecureRandomInt_index [OF j this] have p: "js_at s j \<in> Some ` set s" by auto
  from Cons.IH [OF rest] Cons.prems(2) obtain picks where
    "out = (arr @ [js_at s j]) @ picks" "list_all2 (\<lambda>s p. p \<in> Some ` set s) sets picks" by auto
  with p have "out = arr @ (js_at s j # picks) \<and>
      list_all2 (\<lambda>s p. p \<in> Some ` set s) (s # sets) (js_at s j # picks)" by simp
  then show ?case by blast
qed

lemma generateGuaranteed_each_no_throw:
  assumes "available rnd"
  shows "generateGuaranteed_each rnd sets arr n \<noteq> Some (Inl e, n')"
proof (induction sets arbitrary: arr n)
  case Nil
  show ?case by simp
next
  case (Cons s sets)
  show ?case
    using getSecureRandomInt_no_throw [OF assms] Cons.IH
    by (auto dest!: bind_run_Inl)
qed

lemma generateGuaranteed_fill_result:
  assumes "generateGuaranteed_fill rnd len pool arr n = Some (Inr out, n')" "pool \<noteq> []"
  shows "length out = max len (length arr) \<and> (\<exists>ys. out = arr @ ys \<and> set ys \<subseteq> Some ` set pool)"
  using assms
proof (induction rnd len pool arr n rule: generateGuaranteed_fill.induct)
  case (1 rnd len pool passwordArr n)
  show ?case
  proof (cases "length passwordArr < len")
    case True
    with "1.prems"(1) obtain j n1 where
      j: "getSecureRandomInt rnd (int (length pool)) n = Some (Inr j, n1)" and
      rest: "generateGuaranteed_fill rnd len pool (passwordArr @ [js_at pool j]) n1 = Some (Inr out, n')"
      by (subst (asm) generateGuaranteed_fill.simps) (auto elim!: bind_run_Inr)
    from getSecureRandomInt_index [OF j "1.prems"(2)] have p: "js_at pool j \<in> Some ` set pool" by auto
    from "1.IH" [OF True rest "1.prems"(2)] obtain ys where
      "length out = max len (length (passwordArr @ [js_at pool j]))"
      "out = (passwordArr @ [js_at pool j]) @ ys" "set ys \<subseteq> Some ` set pool" by auto
    with p True have "length out = max len (length passwordArr) \<and>
        out = passwordArr @ (js_at pool j # ys) \<and> set (js_at pool j # ys) \<subseteq> Some ` set pool"
      by auto
    then show ?thesis by blast
  next
    case False
    with "1.prems"(1) show ?thesis
      by (subst (asm) generateGuaranteed_fill.simps) auto
  qed
qed

lemma generateGuaranteed_fill_no_throw:
  assumes "available rnd"
  shows "generateGuaranteed_fill rnd len pool arr n \<noteq> Some (Inl e, n')"
  using assms
proof (induction rnd len pool arr n rule: generateGuaranteed_fill.induct)
  case (1 rnd len pool passwordArr n)
  show ?case
  proof (cases "length passwordArr < len")
    case True
    show ?thesis
      using True getSecureRandomInt_no_throw [OF "1.prems"] "1.IH" [OF True "1.prems"]
      by (subst generateGuaranteed_fill.simps) (auto dest!: bind_run_Inl)
  next
    case False
    then show ?thesis by (subst generateGuaranteed_fill.simps) simp
  qed
qed

lemma generateGuaranteed_result:
  assumes "generateGuaranteed rnd len pool activeSets n = Some (Inr out, n')"
    and "pool \<noteq> []" "\<forall>s\<in>set activeSets. s \<noteq> []" "\<forall>s\<in>set activeSets. set s \<subseteq> set pool"
  shows "length out = max len (length activeSets) \<and> set out \<subseteq> Some ` set pool \<and>
         (\<forall>s\<in>set activeSets. \<exists>c\<in>set s. Some c \<in> set out)"
proof -
  from assms(1) obtain arr n1 where
    e: "generateGuaranteed_each rnd activeSets [] n = Some (Inr arr, n1)" and
    f: "generateGuaranteed_fill rnd len pool arr n1 = Some (Inr out, n')"
    unfolding generateGuaranteed_def by (auto elim!: bind_run_Inr)
  from generateGuaranteed_each_result [OF e assms(3)] have
    picks: "list_all2 (\<lambda>s p. p \<in> Some ` set s) activeSets arr" by auto
  then have la: "length arr = length activeSets" by (simp add: list_all2_lengthD)
  from generateGuaranteed_fill_result [OF f assms(2)] obtain ys where
    out: "length out = max len (length arr)" "out = arr @ ys" "set ys \<subseteq> Some ` set pool" by auto
  have arr_pool: "set arr \<subseteq> Some ` set pool"
  proof
    fix p assume "p \<in> set arr"
    then obtain i where i: "i < length arr" "p = arr ! i" by (auto simp: in_set_conv_nth)
    with list_all2_nthD [OF picks, of i] la have "p \<in> Some ` set (activeSets ! i)" by simp
    moreover have "set (activeSets ! i) \<subseteq> set pool" using assms(4) i la by simp
    ultimately show "p \<in> Some ` set pool" by auto
  qed
  have cov: "\<exists>c\<in>set s. Some c \<in> set out" if "s \<in> set activeSets" for s
  proof -
    from that obtain i where i: "i < length activeSets" "s = activeSets ! i"
      by (auto simp: in_set_conv_nth)
    with list_all2_nthD [OF picks, of i] have "arr ! i \<in> Some ` set s" by simp
    moreover have "arr ! i \<in> set out" using i la out(2) by (simp add: nth_append)
    ultimately show ?thesis by auto
  qed
  from out la arr_pool cov show ?thesis by auto
qed

lemma generateGuaranteed_no_throw:
  assumes "available rnd"
  shows "generateGuaranteed rnd len pool activeSets n \<noteq> Some (Inl e, n')"
  unfolding generateGuaranteed_def
  using generateGuaranteed_each_no_throw [OF assms] generateGuaranteed_fill_no_throw [OF assms]
  by (auto dest!: bind_run_Inl)

section \<open>The unranking loop of generateCombinatorial\<close>

lemma countRemaining_value_array: "countRemaining_value r setSizes (JSArray a) = Inl RangeError"
  by (simp add: countRemaining_value_def)

lemma countRem_array:
  "memo (r, a) = None \<Longrightarrow> countRem setSizes memo r (JSArray a) = (Inl RangeError, memo)"
  by (simp add: countRem_def value_text_def countRemaining_value_array)

lemma generateCombinatorial_scan_throws:
  assumes "sIdx < length activeSets" "memo (remLen, setSizes) = None"
  shows "generateCombinatorial_scan activeSets setSizes remLen sIdx (result, rank, currentMask, memo) =
         Inl RangeError"
  using assms
  by (subst generateCombinatorial_scan.simps) (simp add: countRem_array Let_def)

lemma generateCombinatorial_scan_no_class:
  "generateCombinatorial_scan [] setSizes remLen 0 st = Inr (False, st)"
  by (cases st) (auto simp: generateCombinatorial_scan.simps)

lemma generateCombinatorial_positions_throws:
  assumes "i < len" "activeSets \<noteq> []"
  shows "generateCombinatorial_positions activeSets setSizes len i (result, rank, currentMask, Map.empty) =
         Inl RangeError"
  using assms
  by (subst generateCombinatorial_positions.simps)
     (simp add: generateCombinatorial_scan_throws Let_def)

lemma generateCombinatorial_positions_cases:
  "generateCombinatorial_positions activeSets setSizes len 0 ([], rank, 0, Map.empty) =
     (if len = 0 then Inr (Some []) else if activeSets = [] then Inr None else Inl RangeError)"
proof (cases "len = 0")
  case True
  then show ?thesis by (simp add: generateCombinatorial_positions.simps)
next
  case False
  show ?thesis
  proof (cases "activeSets = []")
    case True
    with False show ?thesis
      by (subst generateCombinatorial_positions.simps)
         (simp add: generateCombinatorial_scan_no_class Let_def)
  next
    case f: False
    with False show ?thesis by (simp add: generateCombinatorial_positions_throws)
  qed
qed

lemma generateCombinatorial_no_array:
  assumes "generateCombinatorial rnd len activeSets n = Some (Inr (Some arr), n')"
  shows "arr = [] \<and> len = 0"
  using assms
  by (auto simp: generateCombinatorial_def Let_def generateCombinatorial_positions_cases
      split: sum.splits if_splits elim!: bind_run_Inr)

text \<open>
  Claim C6, on the code. The count \<open>countValidSequences\<close> is the number of valid
  sequences (claim C1), but the position loop of \<open>generateCombinatorial\<close> maps no rank
  to a sequence: for every length above 0, every non-empty list of classes and every
  rank, the first call \<open>countRem(remLen, setSizes, nextMask)\<close> hands the array
  \<open>setSizes\<close> to \<open>countRemaining\<close> as the mask, which throws a RangeError; so
  \<open>generateCombinatorial\<close> returns neither an array nor \<open>null\<close>, whatever the random
  source does.
\<close>

theorem unrank_throws:
  assumes "0 < L" and "activeSets \<noteq> []"
  shows "unrank activeSets L rank = Inl RangeError \<and>
         generateCombinatorial rnd L activeSets n \<noteq> Some (Inr arr, n')"
proof
  show u: "unrank activeSets L rank = Inl RangeError"
    using assms by (simp add: unrank_def generateCombinatorial_positions_cases)
  show "generateCombinatorial rnd L activeSets n \<noteq> Some (Inr arr, n')"
    using assms
    by (auto simp: generateCombinatorial_def Let_def generateCombinatorial_positions_cases
        split: sum.splits elim!: bind_run_Inr)
qed

lemma getSecureRandomBigInt_224: "getSecureRandomBigInt (list_source []) 224 0 = Some (Inr 0, 1)"
  by (simp add: getSecureRandomBigInt_def Let_def toString16.simps hex_digits_def
      getSecureRandomBigInt_loop.simps [of _ _ _ _ 0] list_source_def bigint_div_def bigint_rem_def)

theorem unrank_throws_witness:
  "countValidSequences 4 [2, 2] = Inr 224 \<and>
   unrank [''ab'', ''01''] 4 0 = Inl RangeError \<and> unrank [''ab'', ''01''] 4 223 = Inl RangeError \<and>
   generateCombinatorial (list_source []) 4 [''ab'', ''01''] 0 = Some (Inl RangeError, 1)"
proof -
  have c: "countValidSequences 4 [2, 2] = Inr 224" by code_simp
  have u: "unrank [''ab'', ''01''] 4 0 = Inl RangeError" "unrank [''ab'', ''01''] 4 223 = Inl RangeError"
    using unrank_throws [of 4 "[''ab'', ''01'']" 0] unrank_throws [of 4 "[''ab'', ''01'']" 223]
    by simp_all
  from c u(1) have "generateCombinatorial (list_source []) 4 [''ab'', ''01''] 0 = Some (Inl RangeError, 1)"
    by (simp add: generateCombinatorial_def Let_def getSecureRandomBigInt_224 bind_run_def unrank_def)
  with c u show ?thesis by simp
qed

section \<open>What generatePassword returns\<close>

lemma concat_filter_nonempty: "concat (filter (\<lambda>s. length s > 0) xss) = concat xss"
  by (induction xss) simp_all

lemma applyFilters_subseq: "subseq (applyFilters ambig unsafe baseSet isSymbol) baseSet"
  by (simp add: applyFilters_def Let_def subseq_order.order_trans [OF subseq_filter_left subseq_filter_left])

lemma all_chars: "distinct (UPPER @ LOWER @ NUMS @ SYMBOLS)" "length (UPPER @ LOWER @ NUMS @ SYMBOLS) = 94"
  by (simp_all add: UPPER_def LOWER_def NUMS_def SYMBOLS_def)

lemma base_lengths: "length UPPER = 26" "length LOWER = 26" "length NUMS = 10" "length SYMBOLS = 32"
  by (simp_all add: UPPER_def LOWER_def NUMS_def SYMBOLS_def)

lemma prepareActiveSets_length:
  "5 \<le> cfg_length (prepareActiveSets options)" "cfg_length (prepareActiveSets options) \<le> 128"
  by (simp_all add: prepareActiveSets_def Let_def)

lemma prepareActiveSets_classes:
  "length (cfg_activeSets (prepareActiveSets options)) \<le> 4"
  "\<forall>s\<in>set (cfg_activeSets (prepareActiveSets options)). s \<noteq> []"
  "\<forall>s\<in>set (cfg_activeSets (prepareActiveSets options)). length s \<le> 32"
proof -
  show "length (cfg_activeSets (prepareActiveSets options)) \<le> 4"
    unfolding prepareActiveSets_def Let_def
    by (simp add: le_trans [OF length_filter_le])
  show "\<forall>s\<in>set (cfg_activeSets (prepareActiveSets options)). s \<noteq> []"
    unfolding prepareActiveSets_def Let_def by auto
  have l: "length (applyFilters a u b y) \<le> length b" for a u b y
    using applyFilters_subseq [of a u b y] by (rule list_emb_length)
  have "length (applyFilters a u UPPER y) \<le> 32" "length (applyFilters a u LOWER y) \<le> 32"
    "length (applyFilters a u NUMS y) \<le> 32" "length (applyFilters a u SYMBOLS y) \<le> 32" for a u y
    using l [of a u UPPER y] l [of a u LOWER y] l [of a u NUMS y] l [of a u SYMBOLS y]
    by (simp_all add: base_lengths)
  then show "\<forall>s\<in>set (cfg_activeSets (prepareActiveSets options)). length s \<le> 32"
    unfolding prepareActiveSets_def Let_def
    by (auto split: if_splits)
qed

lemma prepareActiveSets_pool:
  "subseq (concat (cfg_activeSets (prepareActiveSets options))) (UPPER @ LOWER @ NUMS @ SYMBOLS)"
proof -
  have e: "subseq (concat (if b then [applyFilters a u base y] else [])) base" for b a u base y
    by (simp add: applyFilters_subseq)
  show ?thesis
    unfolding prepareActiveSets_def Let_def
    by (simp only: active_sets.simps concat_filter_nonempty concat_append)
       (intro list_emb_append_mono e)
qed

lemma prepareActiveSets_pool_facts:
  "distinct (concat (cfg_activeSets (prepareActiveSets options)))"
  "length (concat (cfg_activeSets (prepareActiveSets options))) \<le> 94"
proof -
  from prepareActiveSets_pool [of options] obtain N where
    "concat (cfg_activeSets (prepareActiveSets options)) = nths (UPPER @ LOWER @ NUMS @ SYMBOLS) N"
    unfolding subseq_conv_nths by blast
  then show "distinct (concat (cfg_activeSets (prepareActiveSets options)))"
    using all_chars(1) by (simp only: distinct_nthsI)
  show "length (concat (cfg_activeSets (prepareActiveSets options))) \<le> 94"
    using list_emb_length [OF prepareActiveSets_pool [of options]] by (simp only: all_chars(2))
qed

lemma catch_run_cases:
  assumes "catch_run r d = Some (v, s)"
  shows "(\<exists>e. r = Some (Inl e, s) \<and> v = d) \<or> r = Some (Inr v, s)"
  using assms by (auto simp: catch_run_def split: option.splits sum.splits prod.splits)

lemma tier1_full:
  assumes "tryRandomSampling rnd len (concat activeSets) activeSets forceEach n = Some (Inr (Some temp), n')"
    and "concat activeSets \<noteq> []"
  shows "full_array activeSets len forceEach temp"
proof -
  from tryRandomSampling_loop_result [OF assms [unfolded tryRandomSampling_def]]
  have a: "length temp = len" "set temp \<subseteq> Some ` set (concat activeSets)"
    "forceEach \<longrightarrow> (\<forall>s\<in>set activeSets. \<exists>ch\<in>set temp. includes_str s ch)" by auto
  have "\<exists>c\<in>set s. Some c \<in> set temp" if "forceEach" "s \<in> set activeSets" for s
  proof -
    from a(3) that obtain ch where ch: "ch \<in> set temp" "includes_str s ch" by auto
    with a(2) obtain c where "ch = Some c" by auto
    with ch show ?thesis by (auto simp: includes_str_def)
  qed
  with a(1,2) show ?thesis by (auto simp: full_array_def)
qed

lemma tier3_full:
  assumes "generateGuaranteed rnd len (concat activeSets) activeSets n = Some (Inr arr, n')"
    and "activeSets \<noteq> []" "\<forall>s\<in>set activeSets. s \<noteq> []" "length activeSets \<le> len"
  shows "full_array activeSets len forceEach arr"
proof -
  from assms(2,3) have "concat activeSets \<noteq> []" by (cases activeSets) auto
  from generateGuaranteed_result [OF assms(1) this assms(3)] assms(4)
  show ?thesis by (auto simp: full_array_def max_def)
qed

lemma sampling_tiers_result:
  assumes t: "sampling_tiers rnd len (concat activeSets) activeSets forceEach n = Some ((arr, tag), n')"
    and ne: "activeSets \<noteq> []" "\<forall>s\<in>set activeSets. s \<noteq> []"
    and k: "length activeSets \<le> len"
  shows "(arr = [] \<and> tag = ''guaranteed_inclusion'' \<and>
          (\<exists>m e. generateGuaranteed rnd len (concat activeSets) activeSets m = Some (Inl e, n'))) \<or>
         full_array activeSets len forceEach arr"
proof -
  let ?pool = "concat activeSets"
  from ne have pool: "?pool \<noteq> []" by (cases activeSets) auto
  from t obtain p1 n1 where
    c1: "catch_run (tryRandomSampling rnd len ?pool activeSets forceEach n) None = Some (p1, n1)"
    by (auto simp: sampling_tiers_def split: option.splits)
  have p1: "full_array activeSets len forceEach a" if "p1 = Some a" for a
    using catch_run_cases [OF c1] that tier1_full [OF _ pool] by auto
  have three: ?thesis
    if g: "catch_run (generateGuaranteed rnd len ?pool activeSets m) [] = Some (arr, n')"
      and tag: "tag = ''guaranteed_inclusion''" for m
    using catch_run_cases [OF g] tag tier3_full [OF _ ne k] by auto
  show ?thesis
  proof (cases "p1 \<noteq> None \<and> length (the p1) > 0")
    case True
    with t c1 have "p1 = Some arr" by (auto simp: sampling_tiers_def)
    with p1 show ?thesis by simp
  next
    case f1: False
    show ?thesis
    proof (cases forceEach)
      case False
      with t c1 f1 have "catch_run (generateGuaranteed rnd len ?pool activeSets n1) [] = Some (arr, n')"
        "tag = ''guaranteed_inclusion''"
        by (auto simp: sampling_tiers_def split: option.splits if_splits)
      then show ?thesis by (rule three)
    next
      case True
      from t c1 f1 True obtain y n2 where
        g2: "generateCombinatorial rnd len activeSets n1 = Some (y, n2)"
        by (auto simp: sampling_tiers_def split: option.splits)
      have "\<not> (\<exists>a. y = Inr (Some a) \<and> a \<noteq> [])"
        using generateCombinatorial_no_array [of rnd len activeSets n1 _ n2] g2 by auto
      with t c1 f1 \<open>forceEach\<close> g2
      have "catch_run (generateGuaranteed rnd len ?pool activeSets n2) [] = Some (arr, n')"
        "tag = ''guaranteed_inclusion''"
        by (auto simp: sampling_tiers_def split: option.splits if_splits sum.splits)
      then show ?thesis by (rule three)
    qed
  qed
qed

lemma join_chars_full:
  assumes "set arr \<subseteq> Some ` A"
  shows "length (join_chars arr) = length arr \<and> set (join_chars arr) = {c. Some c \<in> set arr}"
  using assms by (induction arr) (auto simp: join_chars_def)

lemma generatePassword_result:
  assumes g: "generatePassword M crypto rnd opts n = Some (Inr r, n')"
  shows "(res_error r = Some NoClassSelected \<and> res_password r = [] \<and>
            cfg_activeSets (prepareActiveSets opts) = []) \<or>
         (res_error r = None \<and> cfg_activeSets (prepareActiveSets opts) \<noteq> [] \<and>
          ((res_password r = [] \<and> res_method r = Some ''guaranteed_inclusion'' \<and>
            (\<exists>m e n3. generateGuaranteed rnd (nat (cfg_length (prepareActiveSets opts)))
                (concat (cfg_activeSets (prepareActiveSets opts)))
                (cfg_activeSets (prepareActiveSets opts)) m = Some (Inl e, n3))) \<or>
           (length (res_password r) = nat (cfg_length (prepareActiveSets opts)) \<and>
            set (res_password r) \<subseteq> set (concat (cfg_activeSets (prepareActiveSets opts))) \<and>
            (cfg_forceEach (prepareActiveSets opts) \<longrightarrow>
               (\<forall>s\<in>set (cfg_activeSets (prepareActiveSets opts)). set (res_password r) \<inter> set s \<noteq> {})))))"
proof -
  define cfg where "cfg = prepareActiveSets opts"
  define sets where "sets = cfg_activeSets cfg"
  define len where "len = nat (cfg_length cfg)"
  define fe where "fe = cfg_forceEach cfg"
  have k4: "length sets \<le> 4" and ne: "\<forall>s\<in>set sets. s \<noteq> []"
    unfolding sets_def cfg_def by (rule prepareActiveSets_classes)+
  have l5: "5 \<le> cfg_length cfg" unfolding cfg_def by (rule prepareActiveSets_length)
  then have len5: "5 \<le> len" by (simp add: len_def)
  from g have crypto by (auto simp: generatePassword_def split: if_splits)
  show ?thesis
  proof (cases "sets = []")
    case True
    with g \<open>crypto\<close> have "r = \<lparr>res_password = [], res_entropy = 0, res_method = None,
        res_error = Some NoClassSelected\<rparr>"
      by (simp add: generatePassword_def Let_def sets_def cfg_def)
    with True show ?thesis by (simp add: sets_def cfg_def)
  next
    case False
    have nolen: "\<not> (fe \<and> cfg_length cfg < int (length sets))" using k4 l5 by simp
    from g \<open>crypto\<close> False nolen obtain arr tag n1 shuffled n2 entropy where
      t: "sampling_tiers rnd len (concat sets) sets fe n = Some ((arr, tag), n1)" and
      sh: "fisherYatesShuffle rnd arr n1 = Some (Inr shuffled, n2)" and
      r: "r = \<lparr>res_password = join_chars shuffled, res_entropy = entropy,
                res_method = Some tag, res_error = None\<rparr>"
      unfolding generatePassword_def Let_def sets_def [symmetric] cfg_def [symmetric]
        len_def [symmetric] fe_def [symmetric]
      by (auto split: option.splits prod.splits sum.splits elim!: bind_run_Inr)
    from fisherYatesShuffle_result [OF sh]
    have s: "length shuffled = length arr" "set shuffled = set arr" by auto
    from sampling_tiers_result [OF t False ne] k4 len5
    consider "arr = []" "tag = ''guaranteed_inclusion''"
        "\<exists>m e. generateGuaranteed rnd len (concat sets) sets m = Some (Inl e, n1)"
      | "full_array sets len fe arr" by auto
    then show ?thesis
    proof cases
      case 1
      with s have "shuffled = []" by simp
      with r 1 False show ?thesis
        unfolding sets_def cfg_def len_def by (auto simp: join_chars_def)
    next
      case 2
      then have a: "length arr = len" "set arr \<subseteq> Some ` set (concat sets)"
        "fe \<longrightarrow> (\<forall>s\<in>set sets. \<exists>c\<in>set s. Some c \<in> set arr)"
        by (auto simp: full_array_def)
      from a(2) s(2) have "set shuffled \<subseteq> Some ` set (concat sets)" by simp
      from join_chars_full [OF this] s a
      have "length (join_chars shuffled) = len"
        "set (join_chars shuffled) \<subseteq> set (concat sets)"
        "fe \<longrightarrow> (\<forall>s\<in>set sets. set (join_chars shuffled) \<inter> set s \<noteq> {})"
        by auto
      with r False show ?thesis
        unfolding sets_def cfg_def len_def fe_def by simp
    qed
  qed
qed

section \<open>Concrete runs of generatePassword\<close>

lemma getSecureRandomInt_accepts:
  assumes "rnd n = Some buf" "2 \<le> mx" "int (buf 0 mod 2 ^ 32) < 4294967296 div mx * mx"
  shows "getSecureRandomInt rnd mx n = Some (Inr (int (buf 0 mod 2 ^ 32) mod mx), Suc n)"
  using assms
  by (simp add: getSecureRandomInt_def Let_def bind_run_def getSecureRandomInt_loop.simps [of rnd _ n])

lemma getSecureRandomInt_throws:
  assumes "rnd n = None" "2 \<le> mx"
  shows "getSecureRandomInt rnd mx n = Some (Inl CryptoError, Suc n)"
  using assms
  by (simp add: getSecureRandomInt_def Let_def bind_run_def getSecureRandomInt_loop.simps [of rnd _ n])

lemma getSecureRandomBigInt_throws:
  assumes "rnd n = None" "1 < mx"
  shows "getSecureRandomBigInt rnd mx n = Some (Inl CryptoError, Suc n)"
  using assms
  by (simp add: getSecureRandomBigInt_def Let_def getSecureRandomBigInt_loop.simps [of rnd _ _ _ n])

lemma list_source_draw:
  assumes "2 \<le> mx"
    and "int ((if n < length ds then ds ! n else 0) mod 2 ^ 32) < 4294967296 div mx * mx"
  shows "getSecureRandomInt (list_source ds) mx n =
         Some (Inr (int ((if n < length ds then ds ! n else 0) mod 2 ^ 32) mod mx), Suc n)"
  using getSecureRandomInt_accepts [of "list_source ds" n _ mx] assms
  by (simp add: list_source_def)

lemma failing_source_draw:
  "2 \<le> mx \<Longrightarrow> getSecureRandomInt failing_source mx n = Some (Inl CryptoError, Suc n)"
  by (rule getSecureRandomInt_throws) (simp_all add: failing_source_def)

lemma tryRandomSampling_draw_numeral:
  "tryRandomSampling_draw rnd pool (numeral k) temp n =
     bind_run (getSecureRandomInt rnd (int (length pool)) n)
       (\<lambda>j. tryRandomSampling_draw rnd pool (pred_numeral k) (temp @ [js_at pool j]))"
  unfolding numeral_eq_Suc by (simp only: tryRandomSampling_draw.simps)

lemma tryRandomSampling_first:
  "tryRandomSampling rnd len pool activeSets forceEach n =
     bind_run (tryRandomSampling_draw rnd pool len [] n)
       (\<lambda>temp n'.
          if forceEach \<and> (\<exists>s\<in>set activeSets. \<not> (\<exists>char\<in>set temp. includes_str s char))
          then tryRandomSampling_loop rnd len pool activeSets forceEach 999 n'
          else Some (Inr (Some temp), n'))"
proof -
  have "(1000 :: nat) = Suc 999" by simp
  then show ?thesis unfolding tryRandomSampling_def by (simp only: tryRandomSampling_loop.simps)
qed

lemma fisherYatesShuffle_loop_numeral:
  "fisherYatesShuffle_loop rnd (numeral k) array n =
     bind_run (getSecureRandomInt rnd (int (numeral k) + 1) n)
       (\<lambda>j. fisherYatesShuffle_loop rnd (pred_numeral k)
          ((array[numeral k := array ! nat j])[nat j := array ! numeral k]))"
  unfolding numeral_eq_Suc by (simp only: fisherYatesShuffle_loop.simps)

lemma base_nonempty: "UPPER \<noteq> []" "LOWER \<noteq> []" "NUMS \<noteq> []" "SYMBOLS \<noteq> []"
  by (simp_all add: UPPER_def LOWER_def NUMS_def SYMBOLS_def)

lemma base_chars:
  "UPPER ! 0 = CHR ''A''" "UPPER ! 10 = CHR ''K''" "LOWER ! 0 = CHR ''a''"
  "NUMS ! 0 = CHR ''0''" "SYMBOLS ! 3 = CHR ''!''"
  "CHR ''A'' \<in> set UPPER" "CHR ''a'' \<in> set LOWER" "CHR ''0'' \<in> set NUMS" "CHR ''!'' \<in> set SYMBOLS"
  by (simp_all add: UPPER_def LOWER_def NUMS_def SYMBOLS_def)

lemma prepareActiveSets_default:
  "prepareActiveSets opts_default =
   \<lparr>cfg_length = 18, cfg_activeSets = [UPPER, LOWER, NUMS, SYMBOLS], cfg_forceEach = True\<rparr>"
  by (simp add: prepareActiveSets_def opts_default_def Let_def applyFilters_def length_or_16_def
      base_nonempty)

lemma prepareActiveSets_length_0:
  "prepareActiveSets opts_length_0 =
   \<lparr>cfg_length = 16, cfg_activeSets = [UPPER, LOWER, NUMS, SYMBOLS], cfg_forceEach = False\<rparr>"
  by (simp add: prepareActiveSets_def opts_length_0_def Let_def applyFilters_def length_or_16_def
      base_nonempty)

lemma prepareActiveSets_length_3:
  "prepareActiveSets opts_length_3 =
   \<lparr>cfg_length = 5, cfg_activeSets = [UPPER, LOWER, NUMS, SYMBOLS], cfg_forceEach = True\<rparr>"
  by (simp add: prepareActiveSets_def opts_length_3_def Let_def applyFilters_def length_or_16_def
      base_nonempty)

lemma prepareActiveSets_digits_5:
  "prepareActiveSets opts_digits_5 =
   \<lparr>cfg_length = 5, cfg_activeSets = [NUMS], cfg_forceEach = True\<rparr>"
  by (simp add: prepareActiveSets_def opts_digits_5_def Let_def applyFilters_def length_or_16_def
      base_nonempty)

lemma counts:
  "countValidSequences 18 [26, 26, 10, 32] = Inr 282971429941866757422641518844313600"
  "countValidSequences 5 [26, 26, 10, 32] = Inr 1220044800"
  "countValidSequences 5 [10] = Inr 100000"
  by code_simp+


lemma tier1_failing:
  "2 \<le> length pool \<Longrightarrow>
   tryRandomSampling failing_source (numeral k) pool activeSets forceEach n = Some (Inl CryptoError, Suc n)"
  by (simp add: tryRandomSampling_first tryRandomSampling_draw_numeral failing_source_draw bind_run_def)

lemma tier2_failing:
  "countValidSequences (int len) (map (\<lambda>s. int (length s)) activeSets) = Inr T \<Longrightarrow> 1 < T \<Longrightarrow>
   generateCombinatorial failing_source len activeSets n = Some (Inl CryptoError, Suc n)"
  by (simp add: generateCombinatorial_def getSecureRandomBigInt_throws failing_source_def bind_run_def)

lemma tier3_failing:
  "2 \<le> length s \<Longrightarrow>
   generateGuaranteed failing_source len pool (s # activeSets) n = Some (Inl CryptoError, Suc n)"
  by (simp add: generateGuaranteed_def failing_source_draw bind_run_def)

lemma run_default_failing:
  "generatePassword M True failing_source opts_default 0 =
   Some (Inr \<lparr>res_password = [],
               res_entropy = calculateShannonEntropyGuaranteed M 18 [26, 26, 10, 32],
               res_method = Some ''guaranteed_inclusion'', res_error = None\<rparr>, 3)"
  unfolding generatePassword_def prepareActiveSets_default
  by (simp add: Let_def sampling_tiers_def tier1_failing tier2_failing [OF _ _] counts tier3_failing
      base_lengths catch_run_def bind_run_def fisherYatesShuffle_def calculateEntropy_def
      join_chars_def)


lemma run_digits_failing:
  "generatePassword M True failing_source opts_digits_5 0 =
   Some (Inr \<lparr>res_password = [],
               res_entropy = calculateShannonEntropyGuaranteed M 5 [10],
               res_method = Some ''guaranteed_inclusion'', res_error = None\<rparr>, 3)"
  unfolding generatePassword_def prepareActiveSets_digits_5
  by (simp add: Let_def sampling_tiers_def tier1_failing tier2_failing [OF _ _] counts tier3_failing
      base_lengths catch_run_def bind_run_def fisherYatesShuffle_def calculateEntropy_def
      join_chars_def)

lemma run_length_0_failing:
  "generatePassword M True failing_source opts_length_0 0 =
   Some (Inr \<lparr>res_password = [], res_entropy = bigIntLog2 M (94 ^ 16),
               res_method = Some ''guaranteed_inclusion'', res_error = None\<rparr>, 2)"
  unfolding generatePassword_def prepareActiveSets_length_0
  by (simp add: Let_def sampling_tiers_def tier1_failing tier3_failing
      base_lengths catch_run_def bind_run_def fisherYatesShuffle_def calculateEntropy_def
      join_chars_def)

lemma draw_length_0:
  "tryRandomSampling_draw (list_source []) (UPPER @ LOWER @ NUMS @ SYMBOLS) 16 [] 0 =
   Some (Inr (map Some ''AAAAAAAAAAAAAAAA''), 16)"
  by (simp add: tryRandomSampling_draw_numeral list_source_draw base_lengths base_chars nth_append
      bind_run_def js_at_def)

lemma shuffle_length_0:
  "fisherYatesShuffle (list_source []) (map Some ''AAAAAAAAAAAAAAAA'') 16 =
   Some (Inr (map Some ''AAAAAAAAAAAAAAAA''), 31)"
  by (simp add: fisherYatesShuffle_def fisherYatesShuffle_loop_numeral list_source_draw bind_run_def)

lemma run_length_0:
  "generatePassword M True (list_source []) opts_length_0 0 =
   Some (Inr \<lparr>res_password = ''AAAAAAAAAAAAAAAA'', res_entropy = bigIntLog2 M (94 ^ 16),
               res_method = Some ''rejection_sampling'', res_error = None\<rparr>, 31)"
  unfolding generatePassword_def prepareActiveSets_length_0
  by (simp add: Let_def sampling_tiers_def tryRandomSampling_first draw_length_0
      shuffle_length_0 [simplified] catch_run_def bind_run_def calculateEntropy_def join_chars_def
      base_lengths)

lemma draw_length_3:
  "tryRandomSampling_draw (list_source [0, 26, 52, 65, 10]) (UPPER @ LOWER @ NUMS @ SYMBOLS) 5 [] 0 =
   Some (Inr (map Some ''Aa0!K''), 5)"
  by (simp add: tryRandomSampling_draw_numeral list_source_draw base_lengths base_chars nth_append
      bind_run_def js_at_def)

lemma shuffle_length_3:
  "fisherYatesShuffle (list_source [0, 26, 52, 65, 10]) (map Some ''Aa0!K'') 5 =
   Some (Inr (map Some ''a0!KA''), 9)"
  by (simp add: fisherYatesShuffle_def fisherYatesShuffle_loop_numeral list_source_draw bind_run_def)

lemma run_length_3:
  "generatePassword M True (list_source [0, 26, 52, 65, 10]) opts_length_3 0 =
   Some (Inr \<lparr>res_password = ''a0!KA'', res_entropy = bigIntLog2 M 1220044800,
               res_method = Some ''rejection_sampling'', res_error = None\<rparr>, 9)"
  unfolding generatePassword_def prepareActiveSets_length_3
  by (simp add: Let_def sampling_tiers_def tryRandomSampling_first draw_length_3 [simplified]
      shuffle_length_3 [simplified] catch_run_def bind_run_def calculateEntropy_def join_chars_def
      base_lengths base_chars includes_str_def counts)



lemma faulty_source_throws:
  "n < length ok \<Longrightarrow> \<not> ok ! n \<Longrightarrow> 2 \<le> mx \<Longrightarrow>
   getSecureRandomInt (faulty_source ok) mx n = Some (Inl CryptoError, Suc n)"
  by (rule getSecureRandomInt_throws) (simp_all add: faulty_source_def)

lemma faulty_source_draw:
  assumes "\<not> (n < length ok \<and> \<not> ok ! n)" "2 \<le> mx" "mx \<le> 4294967296"
  shows "getSecureRandomInt (faulty_source ok) mx n = Some (Inr 0, Suc n)"
  using getSecureRandomInt_accepts [of "faulty_source ok" n "\<lambda>j. 0" mx] limit_positive [of mx] assms
  by (simp add: faulty_source_def)

lemma tier1_faulty:
  "2 \<le> length pool \<Longrightarrow>
   tryRandomSampling (faulty_source (False # ok)) (numeral k) pool activeSets forceEach 0 =
     Some (Inl CryptoError, 1)"
  by (simp add: tryRandomSampling_first tryRandomSampling_draw_numeral faulty_source_throws bind_run_def)

lemma rank_digits:
  "getSecureRandomBigInt (faulty_source [False, True, False]) 100000 (Suc 0) = Some (Inr 0, 2)"
  by (simp add: getSecureRandomBigInt_def Let_def toString16.simps hex_digits_def
      getSecureRandomBigInt_loop.simps [of _ _ _ _ "Suc 0"] faulty_source_def bigint_div_def bigint_rem_def)

lemma tier2_digits:
  "generateCombinatorial (faulty_source [False, True, False]) 5 [NUMS] (Suc 0) = Some (Inl RangeError, 2)"
  using counts(3)
  by (simp add: generateCombinatorial_def Let_def base_lengths rank_digits bind_run_def
      generateCombinatorial_positions_cases)

lemma tier3_digits:
  "generateGuaranteed (faulty_source [False, True, False]) 5 NUMS [NUMS] 2 = Some (Inl CryptoError, 3)"
  by (simp add: generateGuaranteed_def faulty_source_throws base_lengths bind_run_def)

lemma run_digits_faulty:
  "generatePassword M True (faulty_source [False, True, False]) opts_digits_5 0 =
   Some (Inr \<lparr>res_password = [],
               res_entropy = calculateShannonEntropyGuaranteed M 5 [10],
               res_method = Some ''guaranteed_inclusion'', res_error = None\<rparr>, 3)"
  unfolding generatePassword_def prepareActiveSets_digits_5
  by (simp add: Let_def sampling_tiers_def tier1_faulty tier2_digits tier3_digits
      base_lengths catch_run_def bind_run_def fisherYatesShuffle_def calculateEntropy_def
      join_chars_def)

lemma rank_length_3:
  "getSecureRandomBigInt (faulty_source [False]) 1220044800 (Suc 0) = Some (Inr 0, 2)"
  by (simp add: getSecureRandomBigInt_def Let_def toString16.simps hex_digits_def
      getSecureRandomBigInt_loop.simps [of _ _ _ _ "Suc 0"] faulty_source_def bigint_div_def bigint_rem_def)

lemma tier2_length_3:
  "generateCombinatorial (faulty_source [False]) 5 [UPPER, LOWER, NUMS, SYMBOLS] (Suc 0) =
   Some (Inl RangeError, 2)"
  using counts(2)
  by (simp add: generateCombinatorial_def Let_def base_lengths rank_length_3 bind_run_def
      generateCombinatorial_positions_cases)

lemma symbols_0: "SYMBOLS ! 0 = CHR 0x27"
  by (simp add: SYMBOLS_def)

lemma tier3_length_3:
  "generateGuaranteed (faulty_source [False]) 5 (UPPER @ LOWER @ NUMS @ SYMBOLS)
     [UPPER, LOWER, NUMS, SYMBOLS] 2 =
   Some (Inr [Some CHR ''A'', Some CHR ''a'', Some CHR ''0'', Some (CHR 0x27), Some CHR ''A''], 7)"
  by (simp add: generateGuaranteed_def faulty_source_draw base_lengths base_chars symbols_0
      nth_append bind_run_def js_at_def generateGuaranteed_fill.simps)

lemma shuffle_length_3_faulty:
  "fisherYatesShuffle (faulty_source [False])
     [Some CHR ''A'', Some CHR ''a'', Some CHR ''0'', Some (CHR 0x27), Some CHR ''A''] 7 =
   Some (Inr [Some CHR ''a'', Some CHR ''0'', Some (CHR 0x27), Some CHR ''A'', Some CHR ''A''], 11)"
  by (simp add: fisherYatesShuffle_def fisherYatesShuffle_loop_numeral faulty_source_draw bind_run_def)

lemma run_length_3_faulty:
  "generatePassword M True (faulty_source [False]) opts_length_3 0 =
   Some (Inr \<lparr>res_password = [CHR ''a'', CHR ''0'', CHR 0x27, CHR ''A'', CHR ''A''],
               res_entropy = calculateShannonEntropyGuaranteed M 5 [26, 26, 10, 32],
               res_method = Some ''guaranteed_inclusion'', res_error = None\<rparr>, 11)"
  unfolding generatePassword_def prepareActiveSets_length_3
  by (simp add: Let_def sampling_tiers_def tier1_faulty tier2_length_3 tier3_length_3
      shuffle_length_3_faulty base_lengths catch_run_def bind_run_def calculateEntropy_def
      join_chars_def)

section \<open>Length, coverage and failure of generatePassword\<close>

lemma available_list_source: "available (list_source ds)"
  by (simp add: available_def list_source_def)

lemma generatePassword_nonempty:
  assumes g: "generatePassword M crypto rnd opts n = Some (Inr r, n')"
    and e: "res_error r = None" and a: "available rnd \<or> res_password r \<noteq> []"
  shows "length (res_password r) = nat (cfg_length (prepareActiveSets opts)) \<and>
         set (res_password r) \<subseteq> set (concat (cfg_activeSets (prepareActiveSets opts))) \<and>
         (cfg_forceEach (prepareActiveSets opts) \<longrightarrow>
            (\<forall>s\<in>set (cfg_activeSets (prepareActiveSets opts)). set (res_password r) \<inter> set s \<noteq> {}))"
proof -
  have "res_password r \<noteq> []"
    if "generateGuaranteed rnd (nat (cfg_length (prepareActiveSets opts)))
          (concat (cfg_activeSets (prepareActiveSets opts)))
          (cfg_activeSets (prepareActiveSets opts)) m = Some (Inl x, n3)" for m x n3
    using a generateGuaranteed_no_throw [of rnd _ _ _ m x n3] that by auto
  with generatePassword_result [OF g] e show ?thesis by auto
qed

text \<open>
  Claim C2, as amended. For every configuration and every behaviour of the random source,
  the password of a result of \<open>generatePassword\<close> without an error field either has
  exactly \<open>clamp(l, 5, 128)\<close> characters, where \<open>l\<close> is 18 when no length is given, 16
  when \<open>parseInt\<close> of the length is \<open>NaN\<close> or \<open>0\<close>, and the parsed length otherwise; or
  it is empty, and then some call of the random source has thrown.
\<close>

theorem generatePassword_length:
  assumes "generatePassword M crypto rnd opts n = Some (Inr r, n')" and "res_error r = None"
  shows "int (length (res_password r)) =
           max 5 (min 128 (case opt_length opts of
                             None \<Rightarrow> 18
                           | Some NaN \<Rightarrow> 16
                           | Some (Parsed x) \<Rightarrow> if x = 0 then 16 else x)) \<or>
         (res_password r = [] \<and> \<not> available rnd)"
proof (cases "res_password r = [] \<and> \<not> available rnd")
  case True
  then show ?thesis by simp
next
  case False
  then have a: "available rnd \<or> res_password r \<noteq> []" by auto
  have eq: "cfg_length (prepareActiveSets opts) =
          max 5 (min 128 (case opt_length opts of
                            None \<Rightarrow> 18
                          | Some NaN \<Rightarrow> 16
                          | Some (Parsed x) \<Rightarrow> if x = 0 then 16 else x))"
    by (simp add: prepareActiveSets_def Let_def length_or_16_def
        split: option.splits length_value.splits)
  from generatePassword_nonempty [OF assms a]
  have "length (res_password r) = nat (cfg_length (prepareActiveSets opts))" by simp
  with prepareActiveSets_length(1) [of opts]
  have "int (length (res_password r)) = cfg_length (prepareActiveSets opts)" by simp
  then show ?thesis by (simp only: eq) simp
qed

theorem generatePassword_length_witness:
  "generatePassword ideal_math True (list_source []) opts_length_0 0 =
     Some (Inr \<lparr>res_password = ''AAAAAAAAAAAAAAAA'', res_entropy = bigIntLog2 ideal_math (94 ^ 16),
                 res_method = Some ''rejection_sampling'', res_error = None\<rparr>, 31) \<and>
   int (length ''AAAAAAAAAAAAAAAA'') = max 5 (min 128 16) \<and>
   generatePassword ideal_math True failing_source opts_length_0 0 =
     Some (Inr \<lparr>res_password = [], res_entropy = bigIntLog2 ideal_math (94 ^ 16),
                 res_method = Some ''guaranteed_inclusion'', res_error = None\<rparr>, 2) \<and>
   \<not> available failing_source"
  using generatePassword_length [OF run_length_0 [of ideal_math]]
    generatePassword_length [OF run_length_0_failing [of ideal_math]]
    run_length_0 [of ideal_math] run_length_0_failing [of ideal_math]
  by (simp add: opts_length_0_def)

theorem generatePassword_length_0_counterexample:
  "generatePassword ideal_math True (list_source []) opts_length_0 0 =
     Some (Inr \<lparr>res_password = ''AAAAAAAAAAAAAAAA'', res_entropy = bigIntLog2 ideal_math (94 ^ 16),
                 res_method = Some ''rejection_sampling'', res_error = None\<rparr>, 31) \<and>
   generatePassword ideal_math True failing_source opts_length_0 0 =
     Some (Inr \<lparr>res_password = [], res_entropy = bigIntLog2 ideal_math (94 ^ 16),
                 res_method = Some ''guaranteed_inclusion'', res_error = None\<rparr>, 2) \<and>
   opt_length opts_length_0 = Some (Parsed 0) \<and>
   length ''AAAAAAAAAAAAAAAA'' \<noteq> nat (max 5 (min 128 0)) \<and>
   length ([] :: string) \<noteq> nat (max 5 (min 128 0))"
  using run_length_0 [of ideal_math] run_length_0_failing [of ideal_math]
  by (simp add: opts_length_0_def)

text \<open>
  Claim C3, as amended. For every configuration that requires every class and every
  behaviour of the random source, the password of a result of \<open>generatePassword\<close>
  without an error field either holds a character of every active class, or it is empty,
  and then some call of the random source has thrown. Only the first and the third tier
  produce a password: the second always throws.
\<close>

theorem generatePassword_coverage:
  assumes "generatePassword M crypto rnd opts n = Some (Inr r, n')"
    and "res_error r = None" and "cfg_forceEach (prepareActiveSets opts)"
  shows "(\<forall>s\<in>set (cfg_activeSets (prepareActiveSets opts)). \<exists>c\<in>set s. c \<in> set (res_password r)) \<or>
         (res_password r = [] \<and> \<not> available rnd)"
proof (cases "res_password r = [] \<and> \<not> available rnd")
  case True
  then show ?thesis by simp
next
  case False
  then have "available rnd \<or> res_password r \<noteq> []" by auto
  from generatePassword_nonempty [OF assms(1,2) this] assms(3) show ?thesis by blast
qed

theorem generatePassword_coverage_witness:
  "generatePassword ideal_math True (list_source [0, 26, 52, 65, 10]) opts_length_3 0 =
     Some (Inr \<lparr>res_password = ''a0!KA'', res_entropy = bigIntLog2 ideal_math 1220044800,
                 res_method = Some ''rejection_sampling'', res_error = None\<rparr>, 9) \<and>
   generatePassword ideal_math True (faulty_source [False]) opts_length_3 0 =
     Some (Inr \<lparr>res_password = [CHR ''a'', CHR ''0'', CHR 0x27, CHR ''A'', CHR ''A''],
                 res_entropy = calculateShannonEntropyGuaranteed ideal_math 5 [26, 26, 10, 32],
                 res_method = Some ''guaranteed_inclusion'', res_error = None\<rparr>, 11) \<and>
   cfg_forceEach (prepareActiveSets opts_length_3) \<and>
   cfg_activeSets (prepareActiveSets opts_length_3) = [UPPER, LOWER, NUMS, SYMBOLS] \<and>
   (\<exists>c\<in>set UPPER. c \<in> set ''a0!KA'') \<and> (\<exists>c\<in>set LOWER. c \<in> set ''a0!KA'') \<and>
   (\<exists>c\<in>set NUMS. c \<in> set ''a0!KA'') \<and> (\<exists>c\<in>set SYMBOLS. c \<in> set ''a0!KA'') \<and>
   (\<exists>c\<in>set UPPER. c \<in> set [CHR ''a'', CHR ''0'', CHR 0x27, CHR ''A'', CHR ''A'']) \<and>
   (\<exists>c\<in>set LOWER. c \<in> set [CHR ''a'', CHR ''0'', CHR 0x27, CHR ''A'', CHR ''A'']) \<and>
   (\<exists>c\<in>set NUMS. c \<in> set [CHR ''a'', CHR ''0'', CHR 0x27, CHR ''A'', CHR ''A'']) \<and>
   (\<exists>c\<in>set SYMBOLS. c \<in> set [CHR ''a'', CHR ''0'', CHR 0x27, CHR ''A'', CHR ''A''])"
  using generatePassword_coverage [OF run_length_3 [of ideal_math]]
    generatePassword_coverage [OF run_length_3_faulty [of ideal_math]]
    run_length_3 [of ideal_math] run_length_3_faulty [of ideal_math]
  by (simp add: prepareActiveSets_length_3)

theorem generatePassword_coverage_counterexample:
  "generatePassword ideal_math True failing_source opts_digits_5 0 =
     Some (Inr \<lparr>res_password = [],
                 res_entropy = calculateShannonEntropyGuaranteed ideal_math 5 [10],
                 res_method = Some ''guaranteed_inclusion'', res_error = None\<rparr>, 3) \<and>
   prepareActiveSets opts_digits_5 =
     \<lparr>cfg_length = 5, cfg_activeSets = [NUMS], cfg_forceEach = True\<rparr> \<and>
   set ([] :: string) \<inter> set NUMS = {}"
  using run_digits_failing [of ideal_math] prepareActiveSets_digits_5 by simp

lemma tier_failed_catch:
  assumes "tier_failed r = Some n1"
  shows "\<exists>p. catch_run r None = Some (p, n1) \<and> \<not> (p \<noteq> None \<and> length (the p) > 0)"
  using assms
  by (auto simp: tier_failed_def catch_run_def split: option.splits sum.splits prod.splits if_splits)

lemma last_tier_failed_catch:
  assumes "last_tier_failed r = Some n1"
  shows "catch_run r [] = Some ([], n1)"
  using assms
  by (auto simp: last_tier_failed_def catch_run_def split: option.splits sum.splits prod.splits if_splits)

lemma sampling_tiers_failed:
  assumes "all_tiers_failed rnd len activeSets forceEach n = Some n'"
  shows "sampling_tiers rnd len (concat activeSets) activeSets forceEach n =
         Some (([], ''guaranteed_inclusion''), n')"
proof -
  let ?pool = "concat activeSets"
  from assms obtain n1 n2 where
    t1: "tier_failed (tryRandomSampling rnd len ?pool activeSets forceEach n) = Some n1" and
    t2: "(if forceEach then tier_failed (generateCombinatorial rnd len activeSets n1) else Some n1) = Some n2" and
    t3: "last_tier_failed (generateGuaranteed rnd len ?pool activeSets n2) = Some n'"
    by (auto simp: all_tiers_failed_def split: option.splits)
  from tier_failed_catch [OF t1] obtain p1 where
    c1: "catch_run (tryRandomSampling rnd len ?pool activeSets forceEach n) None = Some (p1, n1)"
    and p1: "\<not> (p1 \<noteq> None \<and> length (the p1) > 0)" by blast
  note c3 = last_tier_failed_catch [OF t3]
  show ?thesis
  proof (cases forceEach)
    case False
    with t2 have "n2 = n1" by simp
    with c1 p1 c3 False show ?thesis by (auto simp: sampling_tiers_def)
  next
    case True
    with t2 have f2: "tier_failed (generateCombinatorial rnd len activeSets n1) = Some n2" by simp
    then obtain y where y: "generateCombinatorial rnd len activeSets n1 = Some (y, n2)"
      "(\<exists>e. y = Inl e) \<or> y = Inr None \<or> y = Inr (Some [])"
      by (auto simp: tier_failed_def split: option.splits sum.splits prod.splits if_splits)
    from y(2) show ?thesis
      using c1 p1 c3 True y(1) by (auto simp: sampling_tiers_def)
  qed
qed

lemma calculateEntropy_guaranteed:
  assumes "0 < len" "0 < poolSize"
  shows "calculateEntropy M len poolSize sizes forceEach ''guaranteed_inclusion'' =
         Inr (if forceEach then calculateShannonEntropyGuaranteed M len sizes
              else bigIntLog2 M (poolSize ^ nat len))"
  using assms by (simp add: calculateEntropy_def Let_def)

text \<open>
  Claim C8, as amended. If all three sampling tiers fail (each throws or yields no
  characters; the second, when it is tried, always does) for a configuration that passed
  the configuration checks, \<open>generatePassword\<close> does not throw: it returns the empty
  password with no error field, tagged \<open>guaranteed_inclusion\<close>, with the entropy that
  \<open>calculateEntropy\<close> gives for this tag.
\<close>

theorem generatePassword_all_tiers_failed:
  assumes "cfg_activeSets (prepareActiveSets opts) \<noteq> []"
    and "all_tiers_failed rnd (nat (cfg_length (prepareActiveSets opts)))
           (cfg_activeSets (prepareActiveSets opts)) (cfg_forceEach (prepareActiveSets opts)) n = Some n'"
  shows "generatePassword M True rnd opts n =
         Some (Inr \<lparr>res_password = [],
                     res_entropy =
                       (if cfg_forceEach (prepareActiveSets opts)
                        then calculateShannonEntropyGuaranteed M (cfg_length (prepareActiveSets opts))
                               (map (\<lambda>s. int (length s)) (cfg_activeSets (prepareActiveSets opts)))
                        else bigIntLog2 M
                               (int (length (concat (cfg_activeSets (prepareActiveSets opts)))) ^
                                nat (cfg_length (prepareActiveSets opts)))),
                     res_method = Some ''guaranteed_inclusion'', res_error = None\<rparr>, n')"
proof -
  define cfg where "cfg = prepareActiveSets opts"
  define sets where "sets = cfg_activeSets cfg"
  have k4: "length sets \<le> 4" and ne: "\<forall>s\<in>set sets. s \<noteq> []"
    unfolding sets_def cfg_def by (rule prepareActiveSets_classes)+
  have l5: "5 \<le> cfg_length cfg" unfolding cfg_def by (rule prepareActiveSets_length)
  from assms(1) have sets: "sets \<noteq> []" by (simp add: sets_def cfg_def)
  with ne have "0 < length (concat sets)" by (cases sets) auto
  then have pool: "0 < int (length (concat sets))" by (simp only: of_nat_0_less_iff)
  from l5 have l0: "0 < cfg_length cfg" by simp
  note ce = calculateEntropy_guaranteed [OF l0 pool]
  have nolen: "\<not> (cfg_forceEach cfg \<and> cfg_length cfg < int (length sets))" using k4 l5 by simp
  have t: "sampling_tiers rnd (nat (cfg_length cfg)) (concat sets) sets (cfg_forceEach cfg) n =
      Some (([], ''guaranteed_inclusion''), n')"
    using assms(2) unfolding cfg_def [symmetric] sets_def [symmetric] by (rule sampling_tiers_failed)
  have "generatePassword M True rnd opts n =
         Some (Inr \<lparr>res_password = [],
                     res_entropy =
                       (if cfg_forceEach cfg
                        then calculateShannonEntropyGuaranteed M (cfg_length cfg)
                               (map (\<lambda>s. int (length s)) sets)
                        else bigIntLog2 M (int (length (concat sets)) ^ nat (cfg_length cfg))),
                     res_method = Some ''guaranteed_inclusion'', res_error = None\<rparr>, n')"
    unfolding generatePassword_def Let_def cfg_def [symmetric] sets_def [symmetric]
    using sets nolen t
    by (simp add: fisherYatesShuffle_def bind_run_def ce join_chars_def)
  then show ?thesis unfolding sets_def cfg_def .
qed

theorem generatePassword_all_tiers_failed_witness:
  "cfg_activeSets (prepareActiveSets opts_digits_5) \<noteq> [] \<and>
   tryRandomSampling (faulty_source [False, True, False]) 5 NUMS [NUMS] True 0 =
     Some (Inl CryptoError, 1) \<and>
   generateCombinatorial (faulty_source [False, True, False]) 5 [NUMS] 1 =
     Some (Inl RangeError, 2) \<and>
   generateGuaranteed (faulty_source [False, True, False]) 5 NUMS [NUMS] 2 =
     Some (Inl CryptoError, 3) \<and>
   all_tiers_failed (faulty_source [False, True, False]) 5 [NUMS] True 0 = Some 3 \<and>
   generatePassword ideal_math True (faulty_source [False, True, False]) opts_digits_5 0 =
     Some (Inr \<lparr>res_password = [],
                 res_entropy = calculateShannonEntropyGuaranteed ideal_math 5 [10],
                 res_method = Some ''guaranteed_inclusion'', res_error = None\<rparr>, 3)"
proof -
  have t: "tryRandomSampling (faulty_source [False, True, False]) 5 NUMS [NUMS] True 0 =
     Some (Inl CryptoError, 1)"
    by (simp add: tier1_faulty base_lengths)
  have a: "all_tiers_failed (faulty_source [False, True, False]) 5 [NUMS] True 0 = Some 3"
    by (simp add: all_tiers_failed_def tier_failed_def last_tier_failed_def tier1_faulty
        tier2_digits tier3_digits base_lengths)
  from generatePassword_all_tiers_failed
    [of opts_digits_5 "faulty_source [False, True, False]" 0 3 ideal_math] a
  have "generatePassword ideal_math True (faulty_source [False, True, False]) opts_digits_5 0 =
     Some (Inr \<lparr>res_password = [],
                 res_entropy = calculateShannonEntropyGuaranteed ideal_math 5 [10],
                 res_method = Some ''guaranteed_inclusion'', res_error = None\<rparr>, 3)"
    by (simp add: prepareActiveSets_digits_5 base_lengths)
  with t a tier2_digits tier3_digits show ?thesis
    by (simp add: prepareActiveSets_digits_5)
qed

theorem generatePassword_all_tiers_failed_counterexample:
  "generatePassword ideal_math True failing_source opts_default 0 =
     Some (Inr \<lparr>res_password = [],
                 res_entropy = calculateShannonEntropyGuaranteed ideal_math 18 [26, 26, 10, 32],
                 res_method = Some ''guaranteed_inclusion'', res_error = None\<rparr>, 3)"
  by (rule run_default_failing)

text \<open>
  Claim C4, as amended. With the options \<open>{length: 3, upper, lower, nums, symbols,
  forceEach}\<close> the length is clamped to 5 before the check against the four active
  classes, so \<open>generatePassword\<close> returns no configuration error: whatever it returns has
  no error field, and its password, unless it is empty, has five characters.
\<close>

theorem generatePassword_length_3:
  assumes "generatePassword M crypto rnd opts_length_3 n = Some (Inr r, n')"
  shows "cfg_length (prepareActiveSets opts_length_3) = 5 \<and>
         length (cfg_activeSets (prepareActiveSets opts_length_3)) = 4 \<and>
         cfg_forceEach (prepareActiveSets opts_length_3) \<and>
         res_error r = None \<and>
         (available rnd \<or> res_password r \<noteq> [] \<longrightarrow> length (res_password r) = 5)"
proof -
  from generatePassword_result [OF assms] have e: "res_error r = None"
    by (auto simp: prepareActiveSets_length_3)
  from generatePassword_nonempty [OF assms e]
  have "available rnd \<or> res_password r \<noteq> [] \<longrightarrow> length (res_password r) = 5"
    by (auto simp: prepareActiveSets_length_3)
  with e show ?thesis by (simp add: prepareActiveSets_length_3)
qed

theorem generatePassword_length_3_witness:
  "generatePassword ideal_math True (list_source [0, 26, 52, 65, 10]) opts_length_3 0 =
     Some (Inr \<lparr>res_password = ''a0!KA'', res_entropy = bigIntLog2 ideal_math 1220044800,
                 res_method = Some ''rejection_sampling'', res_error = None\<rparr>, 9) \<and>
   generatePassword ideal_math True (faulty_source [False]) opts_length_3 0 =
     Some (Inr \<lparr>res_password = [CHR ''a'', CHR ''0'', CHR 0x27, CHR ''A'', CHR ''A''],
                 res_entropy = calculateShannonEntropyGuaranteed ideal_math 5 [26, 26, 10, 32],
                 res_method = Some ''guaranteed_inclusion'', res_error = None\<rparr>, 11) \<and>
   cfg_length (prepareActiveSets opts_length_3) = 5 \<and>
   length (cfg_activeSets (prepareActiveSets opts_length_3)) = 4 \<and>
   length ''a0!KA'' = 5 \<and>
   length [CHR ''a'', CHR ''0'', CHR 0x27, CHR ''A'', CHR ''A''] = 5"
  using generatePassword_length_3 [OF run_length_3 [of ideal_math]] run_length_3 [of ideal_math]
    generatePassword_length_3 [OF run_length_3_faulty [of ideal_math]]
    run_length_3_faulty [of ideal_math]
  by simp

theorem generatePassword_length_3_counterexample:
  "generatePassword ideal_math True (list_source [0, 26, 52, 65, 10]) opts_length_3 0 =
     Some (Inr \<lparr>res_password = ''a0!KA'', res_entropy = bigIntLog2 ideal_math 1220044800,
                 res_method = Some ''rejection_sampling'', res_error = None\<rparr>, 9)"
  by (rule run_length_3)

section \<open>Termination of getSecureRandomInt and of its callers\<close>

lemma getSecureRandomInt_loop_returns:
  assumes "n \<le> m" "case rnd m of None \<Rightarrow> True | Some buf \<Rightarrow> int (buf 0 mod 2 ^ 32) < limit"
  shows "getSecureRandomInt_loop rnd limit n \<noteq> None"
  using assms
proof (induction "m - n" arbitrary: n)
  case 0
  then have "n = m" by simp
  with 0(3) show ?case
    by (subst getSecureRandomInt_loop.simps) (simp split: option.splits)
next
  case (Suc d)
  show ?case
  proof (cases "rnd n")
    case None
    then show ?thesis by (subst getSecureRandomInt_loop.simps) simp
  next
    case (Some buf)
    show ?thesis
    proof (cases "limit \<le> int (buf 0 mod 2 ^ 32)")
      case False
      with Some show ?thesis by (subst getSecureRandomInt_loop.simps) simp
    next
      case True
      from Suc.hyps(2) Suc.prems(1) have "d = m - Suc n" "Suc n \<le> m" by simp_all
      from Suc.hyps(1) [OF this Suc.prems(2)] Some True show ?thesis
        by (subst getSecureRandomInt_loop.simps) simp
    qed
  qed
qed

lemma limit_large:
  assumes "2 \<le> mx" "mx \<le> 128"
  shows "4294967168 \<le> 4294967296 div mx * (mx :: int)"
proof -
  have "4294967296 div mx * mx = 4294967296 - 4294967296 mod mx"
    by (simp add: minus_mod_eq_div_mult)
  moreover have "4294967296 mod mx < mx" by (rule pos_mod_bound) (use assms in linarith)
  ultimately show ?thesis using assms by linarith
qed

lemma bind_run_returns:
  assumes "r \<noteq> None" "\<And>v s. f v s \<noteq> None"
  shows "bind_run r f \<noteq> None"
  using assms by (auto simp: bind_run_def split: option.splits sum.splits prod.splits)

lemma getSecureRandomInt_returns:
  assumes "fair_source rnd" "mx \<le> 128"
  shows "getSecureRandomInt rnd mx n \<noteq> None"
proof (cases "mx \<le> 1")
  case True
  then show ?thesis by (simp add: getSecureRandomInt_def)
next
  case False
  then have mx: "2 \<le> mx" by simp
  from assms(1) obtain m where m: "n \<le> m"
    "case rnd m of None \<Rightarrow> True | Some buf \<Rightarrow> int (buf 0 mod 2 ^ 32) < 4294967168"
    unfolding fair_source_def by blast
  from m(2) limit_large [OF mx assms(2)]
  have "case rnd m of None \<Rightarrow> True | Some buf \<Rightarrow> int (buf 0 mod 2 ^ 32) < 4294967296 div mx * mx"
    by (auto split: option.splits)
  then have "getSecureRandomInt_loop rnd (4294967296 div mx * mx) n \<noteq> None"
    using m(1) by (rule getSecureRandomInt_loop_returns [rotated])
  then have "bind_run (getSecureRandomInt_loop rnd (4294967296 div mx * mx) n)
      (\<lambda>x n'. Some (Inr (x mod mx), n')) \<noteq> None"
    by (rule bind_run_returns) simp
  with False show ?thesis by (simp add: getSecureRandomInt_def Let_def)
qed

lemma fisherYatesShuffle_loop_returns:
  assumes "fair_source rnd" "i \<le> 127"
  shows "fisherYatesShuffle_loop rnd i array n \<noteq> None"
  using assms(2)
proof (induction i arbitrary: array n)
  case 0
  then show ?case by simp
next
  case (Suc i)
  show ?case
    unfolding fisherYatesShuffle_loop.simps
  proof (rule bind_run_returns)
    show "getSecureRandomInt rnd (int (Suc i) + 1) n \<noteq> None"
      using Suc.prems by (intro getSecureRandomInt_returns [OF assms(1)]) simp
    show "fisherYatesShuffle_loop rnd i ((array[Suc i := array ! nat v])[nat v := array ! Suc i]) s \<noteq> None"
      for v s using Suc.prems by (intro Suc.IH) simp
  qed
qed

lemma fisherYatesShuffle_returns:
  assumes "fair_source rnd" "length array \<le> 128"
  shows "fisherYatesShuffle rnd array n \<noteq> None"
  unfolding fisherYatesShuffle_def
  using assms(2) by (intro fisherYatesShuffle_loop_returns [OF assms(1)]) simp

lemma tryRandomSampling_draw_returns:
  assumes "fair_source rnd" "length pool \<le> 128"
  shows "tryRandomSampling_draw rnd pool c temp n \<noteq> None"
proof (induction c arbitrary: temp n)
  case 0
  then show ?case by simp
next
  case (Suc c)
  show ?case
    unfolding tryRandomSampling_draw.simps
  proof (rule bind_run_returns)
    show "getSecureRandomInt rnd (int (length pool)) n \<noteq> None"
      using assms(2) by (intro getSecureRandomInt_returns [OF assms(1)]) simp
    show "tryRandomSampling_draw rnd pool c (temp @ [js_at pool v]) s \<noteq> None" for v s
      by (rule Suc.IH)
  qed
qed

lemma tryRandomSampling_returns:
  assumes "fair_source rnd" "length pool \<le> 128"
  shows "tryRandomSampling rnd len pool activeSets forceEach n \<noteq> None"
proof -
  have "tryRandomSampling_loop rnd len pool activeSets forceEach a n \<noteq> None" for a
  proof (induction a arbitrary: n)
    case 0
    then show ?case by simp
  next
    case (Suc a)
    show ?case
      unfolding tryRandomSampling_loop.simps
    proof (rule bind_run_returns)
      show "tryRandomSampling_draw rnd pool len [] n \<noteq> None"
        by (rule tryRandomSampling_draw_returns [OF assms])
      show "(if forceEach \<and> (\<exists>s\<in>set activeSets. \<not> (\<exists>char\<in>set v. includes_str s char))
             then tryRandomSampling_loop rnd len pool activeSets forceEach a s
             else Some (Inr (Some v), s)) \<noteq> None" for v s
        using Suc.IH [of s] by (simp only: split: if_splits) simp
    qed
  qed
  then show ?thesis by (simp add: tryRandomSampling_def)
qed

lemma generateGuaranteed_each_returns:
  assumes "fair_source rnd" "\<forall>s\<in>set sets. length s \<le> 128"
  shows "generateGuaranteed_each rnd sets arr n \<noteq> None"
  using assms(2)
proof (induction sets arbitrary: arr n)
  case Nil
  then show ?case by simp
next
  case (Cons s sets)
  show ?case
    unfolding generateGuaranteed_each.simps
  proof (rule bind_run_returns)
    show "getSecureRandomInt rnd (int (length s)) n \<noteq> None"
      using Cons.prems by (intro getSecureRandomInt_returns [OF assms(1)]) simp
    show "generateGuaranteed_each rnd sets (arr @ [js_at s v]) t \<noteq> None" for v t
      using Cons.prems by (intro Cons.IH) simp
  qed
qed

lemma generateGuaranteed_fill_returns:
  assumes "fair_source rnd" "length pool \<le> 128"
  shows "generateGuaranteed_fill rnd len pool arr n \<noteq> None"
proof (induction "len - length arr" arbitrary: arr n)
  case 0
  then show ?case by (subst generateGuaranteed_fill.simps) simp
next
  case (Suc d)
  have ih: "generateGuaranteed_fill rnd len pool (arr @ [x]) s \<noteq> None" for x s
    using Suc.hyps(2) by (intro Suc.hyps(1)) simp
  from Suc.hyps(2) have lt: "length arr < len" by simp
  have "bind_run (getSecureRandomInt rnd (int (length pool)) n)
          (\<lambda>j. generateGuaranteed_fill rnd len pool (arr @ [js_at pool j])) \<noteq> None"
  proof (rule bind_run_returns)
    show "getSecureRandomInt rnd (int (length pool)) n \<noteq> None"
      using assms(2) by (intro getSecureRandomInt_returns [OF assms(1)]) simp
    show "generateGuaranteed_fill rnd len pool (arr @ [js_at pool v]) s \<noteq> None" for v s
      by (rule ih)
  qed
  with lt show ?case by (subst generateGuaranteed_fill.simps) (simp only: if_True not_False_eq_True)
qed

lemma generateGuaranteed_returns:
  assumes "fair_source rnd" "length pool \<le> 128" "\<forall>s\<in>set sets. length s \<le> 128"
  shows "generateGuaranteed rnd len pool sets n \<noteq> None"
  unfolding generateGuaranteed_def
  by (intro bind_run_returns generateGuaranteed_each_returns generateGuaranteed_fill_returns assms)

lemma getSecureRandomInt_too_large:
  assumes "4294967296 < mx"
  shows "getSecureRandomInt rnd mx n \<noteq> Some (Inr v, n')"
    and "available rnd \<Longrightarrow> getSecureRandomInt rnd mx n = None"
proof -
  from assms have l: "4294967296 div mx * mx = 0" by simp
  show "getSecureRandomInt rnd mx n \<noteq> Some (Inr v, n')"
  proof
    assume "getSecureRandomInt rnd mx n = Some (Inr v, n')"
    with assms obtain x where "getSecureRandomInt_loop rnd 0 n = Some (Inr x, n')"
      by (auto simp: getSecureRandomInt_def l elim!: bind_run_Inr)
    from getSecureRandomInt_loop_result [OF this] show False by auto
  qed
  assume "available rnd"
  then have "\<forall>i\<ge>n. \<exists>buf. rnd i = Some buf \<and> 0 \<le> int (buf 0 mod 2 ^ 32)"
    by (auto simp: available_def)
  then have "getSecureRandomInt_loop rnd 0 n = None" by (rule getSecureRandomInt_loop_diverges)
  with assms show "getSecureRandomInt rnd mx n = None"
    by (simp add: getSecureRandomInt_def l bind_run_def)
qed

lemma getSecureRandomInt_accepted_later:
  assumes "2 \<le> mx" "n \<le> m" "\<forall>i. n \<le> i \<and> i \<le> m \<longrightarrow> rnd i \<noteq> None"
    and "int (the (rnd m) 0 mod 2 ^ 32) < 4294967296 div mx * mx"
  shows "\<exists>v n'. getSecureRandomInt rnd mx n = Some (Inr v, n') \<and> 0 \<le> v \<and> v < mx"
proof -
  from getSecureRandomInt_loop_terminates [OF assms(2,3,4)] obtain x n' where
    "getSecureRandomInt_loop rnd (4294967296 div mx * mx) n = Some (Inr x, n')" by blast
  with assms(1) have "getSecureRandomInt rnd mx n = Some (Inr (x mod mx), n')"
    by (simp add: getSecureRandomInt_def Let_def bind_run_def)
  moreover have "0 \<le> x mod mx" "x mod mx < mx" using assms(1) by simp_all
  ultimately show ?thesis by blast
qed

lemma call_sites_return:
  assumes "fair_source rnd" and ne: "cfg_activeSets (prepareActiveSets opts) \<noteq> []"
  shows "tryRandomSampling rnd (nat (cfg_length (prepareActiveSets opts)))
           (concat (cfg_activeSets (prepareActiveSets opts))) (cfg_activeSets (prepareActiveSets opts))
           (cfg_forceEach (prepareActiveSets opts)) n \<noteq> None"
    and "generateGuaranteed rnd (nat (cfg_length (prepareActiveSets opts)))
           (concat (cfg_activeSets (prepareActiveSets opts))) (cfg_activeSets (prepareActiveSets opts))
           n \<noteq> None"
    and "sampling_tiers rnd (nat (cfg_length (prepareActiveSets opts)))
           (concat (cfg_activeSets (prepareActiveSets opts))) (cfg_activeSets (prepareActiveSets opts))
           (cfg_forceEach (prepareActiveSets opts)) n = Some ((arr, tag), n1) \<Longrightarrow>
         length arr \<le> 128 \<and> fisherYatesShuffle rnd arr n1 \<noteq> None"
proof -
  define cfg where "cfg = prepareActiveSets opts"
  have pool: "length (concat (cfg_activeSets cfg)) \<le> 128"
    using prepareActiveSets_pool_facts(2) [of opts] by (simp add: cfg_def)
  have sets: "\<forall>s\<in>set (cfg_activeSets cfg). length s \<le> 128"
    using prepareActiveSets_classes(3) [of opts] by (auto simp: cfg_def intro: le_trans)
  show "tryRandomSampling rnd (nat (cfg_length (prepareActiveSets opts)))
           (concat (cfg_activeSets (prepareActiveSets opts))) (cfg_activeSets (prepareActiveSets opts))
           (cfg_forceEach (prepareActiveSets opts)) n \<noteq> None"
    using pool unfolding cfg_def by (rule tryRandomSampling_returns [OF assms(1)])
  show "generateGuaranteed rnd (nat (cfg_length (prepareActiveSets opts)))
           (concat (cfg_activeSets (prepareActiveSets opts))) (cfg_activeSets (prepareActiveSets opts))
           n \<noteq> None"
    using pool sets unfolding cfg_def by (rule generateGuaranteed_returns [OF assms(1)])
  assume t: "sampling_tiers rnd (nat (cfg_length (prepareActiveSets opts)))
           (concat (cfg_activeSets (prepareActiveSets opts))) (cfg_activeSets (prepareActiveSets opts))
           (cfg_forceEach (prepareActiveSets opts)) n = Some ((arr, tag), n1)"
  have l: "5 \<le> cfg_length (prepareActiveSets opts)" "cfg_length (prepareActiveSets opts) \<le> 128"
    by (rule prepareActiveSets_length)+
  have k: "length (cfg_activeSets (prepareActiveSets opts)) \<le> 4"
    by (rule prepareActiveSets_classes)
  from sampling_tiers_result [OF t ne prepareActiveSets_classes(2)] k l
  have "arr = [] \<or> length arr = nat (cfg_length (prepareActiveSets opts))"
    by (auto simp: full_array_def)
  with l have "length arr \<le> 128" by auto
  with fisherYatesShuffle_returns [OF assms(1)]
  show "length arr \<le> 128 \<and> fisherYatesShuffle rnd arr n1 \<noteq> None" by simp
qed

lemma fair_list_source: "fair_source (list_source ds)"
  unfolding fair_source_def
proof
  fix n
  have "n \<le> max n (length ds)" by simp
  moreover have "case list_source ds (max n (length ds)) of None \<Rightarrow> True
      | Some buf \<Rightarrow> int (buf 0 mod 2 ^ 32) < 4294967168"
    by (simp add: list_source_def)
  ultimately show "\<exists>m\<ge>n. case list_source ds m of None \<Rightarrow> True
      | Some buf \<Rightarrow> int (buf 0 mod 2 ^ 32) < 4294967168" by blast
qed

text \<open>
  Claim C10. \<open>getSecureRandomInt(max)\<close> returns 0 without a draw for \<open>max \<le> 1\<close>. For
  \<open>2 \<le> max \<le> 2^32\<close> the threshold \<open>floor(2^32 / max) * max\<close> is positive, and when some
  draw from the current one on is below the threshold (no call up to it throwing) the
  loop ends with a value in \<open>[0, max)\<close>. For \<open>max > 2^32\<close> the threshold is 0, no call
  returns a value, and with a source that never throws the loop never ends. In the engine
  the arguments are the pool size (at most 94), the size of a class (at most 94) and
  an index below the length of the array to shuffle (at most 128): for every configuration
  with an active class and every source that again and again throws or yields a value
  below \<open>2^32 - 128\<close>, \<open>tryRandomSampling\<close>, \<open>generateGuaranteed\<close> and the shuffle of
  the array that the tiers produce all return.
\<close>

theorem getSecureRandomInt_rejection_loop:
  "(mx \<le> 1 \<longrightarrow> getSecureRandomInt rnd mx n = Some (Inr 0, n)) \<and>
   (2 \<le> mx \<and> mx \<le> 4294967296 \<longrightarrow>
      0 < 4294967296 div mx * mx \<and>
      (\<forall>m\<ge>n. (\<forall>i. n \<le> i \<and> i \<le> m \<longrightarrow> rnd i \<noteq> None) \<and>
              int (the (rnd m) 0 mod 2 ^ 32) < 4294967296 div mx * mx \<longrightarrow>
         (\<exists>v n'. getSecureRandomInt rnd mx n = Some (Inr v, n') \<and> 0 \<le> v \<and> v < mx))) \<and>
   (4294967296 < mx \<longrightarrow>
      4294967296 div mx * mx = 0 \<and>
      (\<forall>v n'. getSecureRandomInt rnd mx n \<noteq> Some (Inr v, n')) \<and>
      (available rnd \<longrightarrow> getSecureRandomInt rnd mx n = None)) \<and>
   (cfg_activeSets (prepareActiveSets opts) \<noteq> [] \<longrightarrow>
      length (concat (cfg_activeSets (prepareActiveSets opts))) \<le> 94 \<and>
      (\<forall>s\<in>set (cfg_activeSets (prepareActiveSets opts)). length s \<le> 94) \<and>
      cfg_length (prepareActiveSets opts) \<le> 128 \<and>
      (fair_source rnd \<longrightarrow>
         tryRandomSampling rnd (nat (cfg_length (prepareActiveSets opts)))
           (concat (cfg_activeSets (prepareActiveSets opts))) (cfg_activeSets (prepareActiveSets opts))
           (cfg_forceEach (prepareActiveSets opts)) n \<noteq> None \<and>
         generateGuaranteed rnd (nat (cfg_length (prepareActiveSets opts)))
           (concat (cfg_activeSets (prepareActiveSets opts))) (cfg_activeSets (prepareActiveSets opts))
           n \<noteq> None \<and>
         (\<forall>arr tag n1.
            sampling_tiers rnd (nat (cfg_length (prepareActiveSets opts)))
              (concat (cfg_activeSets (prepareActiveSets opts)))
              (cfg_activeSets (prepareActiveSets opts))
              (cfg_forceEach (prepareActiveSets opts)) n = Some ((arr, tag), n1) \<longrightarrow>
            length arr \<le> 128 \<and> fisherYatesShuffle rnd arr n1 \<noteq> None)))"
proof (intro conjI impI allI)
  assume "mx \<le> 1"
  then show "getSecureRandomInt rnd mx n = Some (Inr 0, n)"
    by (auto simp: getSecureRandomInt_def)
next
  assume "2 \<le> mx \<and> mx \<le> 4294967296"
  then show "0 < 4294967296 div mx * mx" by (auto intro: limit_positive)
next
  fix m
  assume "2 \<le> mx \<and> mx \<le> 4294967296" "n \<le> m"
    "(\<forall>i. n \<le> i \<and> i \<le> m \<longrightarrow> rnd i \<noteq> None) \<and>
       int (the (rnd m) 0 mod 2 ^ 32) < 4294967296 div mx * mx"
  then show "\<exists>v n'. getSecureRandomInt rnd mx n = Some (Inr v, n') \<and> 0 \<le> v \<and> v < mx"
    by (intro getSecureRandomInt_accepted_later) auto
next
  assume "4294967296 < mx"
  then show "4294967296 div mx * mx = 0" by simp
next
  fix v n'
  assume "4294967296 < mx"
  then show "getSecureRandomInt rnd mx n \<noteq> Some (Inr v, n')"
    by (rule getSecureRandomInt_too_large)
next
  assume "4294967296 < mx" "available rnd"
  then show "getSecureRandomInt rnd mx n = None" by (rule getSecureRandomInt_too_large)
next
  show "length (concat (cfg_activeSets (prepareActiveSets opts))) \<le> 94"
    by (rule prepareActiveSets_pool_facts)
next
  show "\<forall>s\<in>set (cfg_activeSets (prepareActiveSets opts)). length s \<le> 94"
    using prepareActiveSets_classes(3) [of opts] by (auto intro: le_trans)
next
  show "cfg_length (prepareActiveSets opts) \<le> 128" by (rule prepareActiveSets_length)
next
  assume "cfg_activeSets (prepareActiveSets opts) \<noteq> []" "fair_source rnd"
  then show "tryRandomSampling rnd (nat (cfg_length (prepareActiveSets opts)))
           (concat (cfg_activeSets (prepareActiveSets opts))) (cfg_activeSets (prepareActiveSets opts))
           (cfg_forceEach (prepareActiveSets opts)) n \<noteq> None"
    by (intro call_sites_return)
next
  assume "cfg_activeSets (prepareActiveSets opts) \<noteq> []" "fair_source rnd"
  then show "generateGuaranteed rnd (nat (cfg_length (prepareActiveSets opts)))
           (concat (cfg_activeSets (prepareActiveSets opts))) (cfg_activeSets (prepareActiveSets opts))
           n \<noteq> None"
    by (intro call_sites_return)
next
  fix arr tag n1
  assume a: "cfg_activeSets (prepareActiveSets opts) \<noteq> []" "fair_source rnd"
    "sampling_tiers rnd (nat (cfg_length (prepareActiveSets opts)))
              (concat (cfg_activeSets (prepareActiveSets opts)))
              (cfg_activeSets (prepareActiveSets opts))
              (cfg_forceEach (prepareActiveSets opts)) n = Some ((arr, tag), n1)"
  from call_sites_return(3) [OF a(2,1,3)]
  show "length arr \<le> 128" "fisherYatesShuffle rnd arr n1 \<noteq> None" by simp_all
qed

theorem getSecureRandomInt_rejection_loop_witness:
  "getSecureRandomInt (list_source [4294967295, 150]) 1 0 = Some (Inr 0, 0) \<and>
   0 < 4294967296 div 94 * (94 :: int) \<and>
   getSecureRandomInt (list_source [4294967295, 150]) 94 0 = Some (Inr 56, 2) \<and>
   available (list_source [4294967295, 150]) \<and>
   getSecureRandomInt (list_source [4294967295, 150]) 4294967297 0 = None \<and>
   fair_source (list_source [4294967295, 150]) \<and>
   cfg_activeSets (prepareActiveSets opts_default) = [UPPER, LOWER, NUMS, SYMBOLS] \<and>
   tryRandomSampling (list_source [4294967295, 150]) 18 (concat [UPPER, LOWER, NUMS, SYMBOLS])
     [UPPER, LOWER, NUMS, SYMBOLS] True 0 \<noteq> None"
proof -
  note t = getSecureRandomInt_rejection_loop [of _ "list_source [4294967295, 150]" 0 opts_default]
  have a: "available (list_source [4294967295, 150])" by (rule available_list_source)
  have f: "fair_source (list_source [4294967295, 150])" by (rule fair_list_source)
  have 1: "getSecureRandomInt (list_source [4294967295, 150]) 1 0 = Some (Inr 0, 0)"
    using t [of 1] by simp
  have 2: "0 < 4294967296 div 94 * (94 :: int)" using t [of 94] by simp
  have 3: "getSecureRandomInt (list_source [4294967295, 150]) 94 0 = Some (Inr 56, 2)"
    by (simp add: getSecureRandomInt_def Let_def bind_run_def list_source_def
        getSecureRandomInt_loop.simps [of _ _ 0] getSecureRandomInt_loop.simps [of _ _ "Suc 0"])
  have 4: "getSecureRandomInt (list_source [4294967295, 150]) 4294967297 0 = None"
    using t [of 4294967297] a by simp
  have 5: "tryRandomSampling (list_source [4294967295, 150]) 18 (concat [UPPER, LOWER, NUMS, SYMBOLS])
     [UPPER, LOWER, NUMS, SYMBOLS] True 0 \<noteq> None"
    using t [of 0] f by (simp add: prepareActiveSets_default)
  from 1 2 3 4 5 a f show ?thesis by (simp add: prepareActiveSets_default)
qed


end
